theory Spec2Isabelle
  imports Complex_Main
begin

section \<open>Strings and numbers of the export script\<close>

text \<open>
  The script \<^verbatim>\<open>src/index.ts\<close> exports the users of a paginated API into a CSV file.
  JavaScript strings are modelled as \<^typ>\<open>string\<close>: a character is a code unit in the
  range 0..255. A JavaScript \<^verbatim>\<open>number\<close> that holds a user count or a unix timestamp is
  an integer; a delay in milliseconds is a \<^typ>\<open>real\<close> (the script multiplies it by a
  random jitter), so the rounding of IEEE doubles is not part of the model.
  File-system calls are assumed not to throw.
\<close>

definition dquote :: char where
  "dquote = CHR 0x22"

definition newline :: char where
  "newline = CHR 0x0A"

definition comma :: char where
  "comma = CHR 0x2C"

text \<open>The white space that \<^verbatim>\<open>String.prototype.trim\<close> removes, among the code units below 256:
  tab, line feed, vertical tab, form feed, carriage return, space and no-break space.\<close>

definition is_ws :: "char \<Rightarrow> bool" where
  "is_ws c = (c = CHR 0x09 \<or> c = CHR 0x0A \<or> c = CHR 0x0B \<or> c = CHR 0x0C \<or> c = CHR 0x0D
     \<or> c = CHR 0x20 \<or> c = CHR 0xA0)"

definition trim :: "string \<Rightarrow> string" where
  "trim s = rev (dropWhile is_ws (rev (dropWhile is_ws s)))"

text \<open>\<^verbatim>\<open>s.split(c)\<close> for a one-character separator: never empty, \<^verbatim>\<open>"".split(c)\<close> is \<^verbatim>\<open>[""]\<close>.\<close>

fun split_on :: "char \<Rightarrow> string \<Rightarrow> string list" where
  "split_on c [] = [[]]"
| "split_on c (x # xs) =
     (if x = c then [] # split_on c xs
      else (case split_on c xs of [] \<Rightarrow> [[x]] | y # ys \<Rightarrow> (x # y) # ys))"

text \<open>\<^verbatim>\<open>parts.join(sep)\<close>.\<close>

fun join :: "string \<Rightarrow> string list \<Rightarrow> string" where
  "join sep [] = []"
| "join sep [x] = x"
| "join sep (x # y # ys) = x @ sep @ join sep (y # ys)"

text \<open>\<^verbatim>\<open>s.includes(pat)\<close>.\<close>

fun starts_with :: "string \<Rightarrow> string \<Rightarrow> bool" where
  "starts_with s [] = True"
| "starts_with [] (p # ps) = False"
| "starts_with (x # xs) (p # ps) = (x = p \<and> starts_with xs ps)"

fun str_includes :: "string \<Rightarrow> string \<Rightarrow> bool" where
  "str_includes [] pat = (pat = [])"
| "str_includes (x # xs) pat = (starts_with (x # xs) pat \<or> str_includes xs pat)"

text \<open>Decimal notation, as \<^verbatim>\<open>Number.prototype.toString\<close> prints an integer below \<open>10^21\<close>.\<close>

definition digit_table :: "(char \<times> nat) list" where
  "digit_table =
     [(CHR ''0'', 0), (CHR ''1'', 1), (CHR ''2'', 2), (CHR ''3'', 3), (CHR ''4'', 4),
      (CHR ''5'', 5), (CHR ''6'', 6), (CHR ''7'', 7), (CHR ''8'', 8), (CHR ''9'', 9)]"

definition digit_char :: "nat \<Rightarrow> char" where
  "digit_char d = fst (digit_table ! (d mod 10))"

definition digit_val :: "char \<Rightarrow> nat option" where
  "digit_val c = map_of digit_table c"

definition is_digit :: "char \<Rightarrow> bool" where
  "is_digit c = (digit_val c \<noteq> None)"

fun string_of_nat :: "nat \<Rightarrow> string" where
  "string_of_nat n =
     (if n < 10 then [digit_char n]
      else string_of_nat (n div 10) @ [digit_char (n mod 10)])"

declare string_of_nat.simps [simp del]

definition toString :: "int \<Rightarrow> string" where
  "toString i = (if i < 0 then CHR ''-'' # string_of_nat (nat (- i)) else string_of_nat (nat i))"

text \<open>\<^verbatim>\<open>parseInt(s, 10)\<close>: leading white space, an optional sign, then the longest run of
  decimal digits; \<^verbatim>\<open>NaN\<close> (here \<open>None\<close>) when there is no digit.\<close>

definition nat_of_digits :: "string \<Rightarrow> nat" where
  "nat_of_digits ds = foldl (\<lambda>a c. 10 * a + (case digit_val c of None \<Rightarrow> 0 | Some d \<Rightarrow> d)) 0 ds"

definition parseInt :: "string \<Rightarrow> int option" where
  "parseInt s =
     (let s1 = dropWhile is_ws s;
          neg = (case s1 of [] \<Rightarrow> False | c # _ \<Rightarrow> c = CHR ''-'');
          s2 = (case s1 of [] \<Rightarrow> [] | c # r \<Rightarrow> if c = CHR ''-'' \<or> c = CHR ''+'' then r else s1);
          ds = takeWhile is_digit s2
      in if ds = [] then None
         else Some (if neg then - int (nat_of_digits ds) else int (nat_of_digits ds)))"

section \<open>The files and the upstream service\<close>

text \<open>
  The three files of the script (\<^verbatim>\<open>USERS_FILE\<close>, \<^verbatim>\<open>CURSOR_FILE\<close>, \<^verbatim>\<open>TIMESTAMP_FILE\<close>; \<open>None\<close>
  when the file does not exist), the module variable \<^verbatim>\<open>processedUserIds\<close>, the number of
  calls of \<^verbatim>\<open>Math.random\<close> made so far, and the log of what the process did to the outside
  world, oldest effect first.
\<close>

datatype effect =
    Request "string option" "int option"
  | Sleep real
  | AppendUsers string
  | WriteCursor string
  | UnlinkCursor
  | WriteTimestamp string

record world =
  users_file :: "string option"
  cursor_file :: "string option"
  timestamp_file :: "string option"
  processedUserIds :: "string set"
  draws :: nat
  trace :: "effect list"

definition emit :: "effect \<Rightarrow> world \<Rightarrow> world" where
  "emit e w = w\<lparr>trace := trace w @ [e]\<rparr>"

subsection \<open>Cursor store and watermark store\<close>

text \<open>\<^verbatim>\<open>cursor || ""\<close> and \<^verbatim>\<open>cursor || null\<close>.\<close>

definition or_empty :: "string option \<Rightarrow> string" where
  "or_empty c = (case c of None \<Rightarrow> [] | Some s \<Rightarrow> s)"

definition or_null :: "string \<Rightarrow> string option" where
  "or_null s = (if s = [] then None else Some s)"

definition saveCursor :: "string option \<Rightarrow> world \<Rightarrow> world" where
  "saveCursor cursor w = emit (WriteCursor (or_empty cursor)) (w\<lparr>cursor_file := Some (or_empty cursor)\<rparr>)"

definition loadSavedCursor :: "world \<Rightarrow> string option" where
  "loadSavedCursor w = (case cursor_file w of None \<Rightarrow> None | Some content \<Rightarrow> or_null (trim content))"

definition saveTimestamp :: "int \<Rightarrow> world \<Rightarrow> world" where
  "saveTimestamp t w = emit (WriteTimestamp (toString t)) (w\<lparr>timestamp_file := Some (toString t)\<rparr>)"

text \<open>\<^verbatim>\<open>parseInt(timestamp, 10) || null\<close>: \<^verbatim>\<open>NaN\<close> and \<open>0\<close> both give \<^verbatim>\<open>null\<close>.\<close>

definition loadLastFetchTimestamp :: "world \<Rightarrow> int option" where
  "loadLastFetchTimestamp w =
     (case timestamp_file w of
        None \<Rightarrow> None
      | Some content \<Rightarrow>
          (case parseInt (trim content) of
             None \<Rightarrow> None
           | Some t \<Rightarrow> if t = 0 then None else Some t))"

subsection \<open>Users, CSV rows and the dedup index\<close>

record linked_account =
  acc_type :: string
  address :: "string option"
  verified_at :: "int option"

record PrivyUser =
  user_id :: string
  created_at :: int
  is_guest :: bool
  linked_accounts :: "linked_account list"

text \<open>A response body; \<open>data = None\<close> stands for a body whose \<^verbatim>\<open>data\<close> field is missing or
  is not an array.\<close>

record PrivyResponse =
  data :: "PrivyUser list option"
  next_cursor :: "string option"

definition csv_header :: string where
  "csv_header = ''id,createdAt,isGuest,email,wallet,linkedAccounts''"

definition quoted :: "string \<Rightarrow> string" where
  "quoted v = dquote # v @ [dquote]"

text \<open>\<^verbatim>\<open>account?.address || ""\<close>.\<close>

definition account_address :: "linked_account option \<Rightarrow> string" where
  "account_address a = (case a of None \<Rightarrow> [] | Some acc \<Rightarrow> or_empty (address acc))"

definition formatUserToCsvRow :: "PrivyUser \<Rightarrow> string" where
  "formatUserToCsvRow user =
     (let emailAccount = find (\<lambda>acc. acc_type acc = ''email'') (linked_accounts user);
          walletAccount = find (\<lambda>acc. acc_type acc = ''wallet'') (linked_accounts user)
      in join [comma]
           (map quoted
              [user_id user,
               (if created_at user = 0 then [] else toString (created_at user)),
               (if is_guest user then ''true'' else ''false''),
               account_address emailAccount,
               account_address walletAccount,
               toString (int (length (linked_accounts user)))]))"

text \<open>\<^verbatim>\<open>columns[0].replace(/"/g, "")\<close>.\<close>

definition remove_quotes :: "string \<Rightarrow> string" where
  "remove_quotes s = filter (\<lambda>c. c \<noteq> dquote) s"

text \<open>The body of the loop of \<^verbatim>\<open>loadExistingUserIds\<close> for one line of the file.\<close>

definition index_line :: "string \<Rightarrow> string set \<Rightarrow> string set" where
  "index_line l ids =
     (let line = trim l in
      if line = [] then ids
      else (case split_on comma line of
              [] \<Rightarrow> ids
            | userId # _ \<Rightarrow> insert (remove_quotes userId) ids))"

text \<open>The loop starts at index 1: the first line is skipped as the header.\<close>

definition loadExistingUserIds :: "world \<Rightarrow> world" where
  "loadExistingUserIds w =
     (case users_file w of
        None \<Rightarrow> w
      | Some fileContent \<Rightarrow>
          w\<lparr>processedUserIds :=
              fold index_line (drop 1 (split_on newline fileContent)) (processedUserIds w)\<rparr>)"

text \<open>The \<^verbatim>\<open>forEach\<close> of \<^verbatim>\<open>appendUsersToFile\<close>: the rows to write, the index, and the counts of
  new and of duplicate users.\<close>

fun add_user :: "PrivyUser \<Rightarrow> string list \<times> string set \<times> nat \<times> nat
    \<Rightarrow> string list \<times> string set \<times> nat \<times> nat" where
  "add_user user (csv, ids, newUsers, duplicates) =
     (if user_id user \<notin> ids
      then (csv @ [formatUserToCsvRow user], insert (user_id user) ids, newUsers + 1, duplicates)
      else (csv, ids, newUsers, duplicates + 1))"

definition append_file :: "string \<Rightarrow> world \<Rightarrow> world" where
  "append_file text w =
     emit (AppendUsers text) (w\<lparr>users_file := Some (or_empty (users_file w) @ text)\<rparr>)"

definition appendUsersToFile :: "PrivyUser list \<Rightarrow> bool \<Rightarrow> world \<Rightarrow> nat \<times> world" where
  "appendUsersToFile users isFirstBatch w =
     (let shouldAddHeader = (or_empty (users_file w) = []);
          csv0 = (if isFirstBatch \<and> shouldAddHeader then [csv_header] else []);
          (csv, ids, newUsers, duplicates) = fold add_user users (csv0, processedUserIds w, 0, 0);
          w1 = w\<lparr>processedUserIds := ids\<rparr>
      in (newUsers, if csv = [] then w1 else append_file (join [newline] csv @ [newline]) w1))"

subsection \<open>Configuration\<close>

definition rateLimitMs :: real where "rateLimitMs = 1000"
definition usersBatchSize :: nat where "usersBatchSize = 2500"
definition batchCooldownMs :: real where "batchCooldownMs = 10 * 1000"
definition maxRequestsPerMinute :: real where "maxRequestsPerMinute = 30"
definition initialBackoffMs :: real where "initialBackoffMs = 1000"
definition maxBackoffMs :: real where "maxBackoffMs = 60000"
definition backoffFactor :: real where "backoffFactor = 2"
definition jitterFactor :: real where "jitterFactor = 1 / 10"

subsection \<open>Fetching one page\<close>

text \<open>
  What the transport does at one attempt: an HTTP response with its status and body, or a
  failure of \<^verbatim>\<open>fetch\<close> itself with the message of the error; the body of a response is
  taken as parsed (\<^verbatim>\<open>response.json()\<close> does not reject). The attempts of one call of
  \<^verbatim>\<open>fetchPageOfUsers\<close> are a list of such events; when the list is used up the call is
  still waiting (\<open>Pending\<close>). \<^verbatim>\<open>Math.random\<close> is the stream \<open>rnd\<close>.
\<close>

datatype event = Response nat PrivyResponse | NetworkFailure string

datatype error =
    HttpError nat
  | NetworkError string
  | FailedAfterRetries nat string
  | InvalidResponseFormat

datatype 'a outcome = Returned 'a | Threw error | Pending

text \<open>The jitter and the next delay, in exact arithmetic. The script computes them in doubles,
  where a random number just below 1 gives a jitter of exactly 1.1: the properties below take
  the random numbers from the closed interval and state no strict bound.\<close>

definition jitter_of :: "real \<Rightarrow> real" where
  "jitter_of r = 1 + (r * 2 - 1) * jitterFactor"

definition next_backoff :: "real \<Rightarrow> real \<Rightarrow> real" where
  "next_backoff backoffMs r = min (backoffMs * backoffFactor * jitter_of r) maxBackoffMs"

text \<open>The body shared by the two retry branches: draw the jitter, grow the delay, sleep.\<close>

definition back_off :: "(nat \<Rightarrow> real) \<Rightarrow> real \<Rightarrow> world \<Rightarrow> real \<times> world" where
  "back_off rnd backoffMs w =
     (let b = next_backoff backoffMs (rnd (draws w))
      in (b, emit (Sleep b) (w\<lparr>draws := draws w + 1\<rparr>)))"

fun fetch_attempts :: "(nat \<Rightarrow> real) \<Rightarrow> string option \<Rightarrow> int option \<Rightarrow> event list
    \<Rightarrow> nat \<Rightarrow> real \<Rightarrow> world \<Rightarrow> PrivyResponse outcome \<times> world" where
  "fetch_attempts rnd cursor since [] retries backoffMs w =
     (Pending, emit (Request cursor since) w)"
| "fetch_attempts rnd cursor since (ev # evs) retries backoffMs w =
     (let w1 = emit (Request cursor since) w in
      case ev of
        Response status body \<Rightarrow>
          if 200 \<le> status \<and> status \<le> 299 then
            (Returned body, emit (Sleep (max rateLimitMs (60000 / maxRequestsPerMinute))) w1)
          else if status = 429 then
            fetch_attempts rnd cursor since evs (retries + 1)
              (fst (back_off rnd backoffMs w1)) (snd (back_off rnd backoffMs w1))
          else (Threw (HttpError status), w1)
      | NetworkFailure msg \<Rightarrow>
          if str_includes msg ''HTTP error'' then (Threw (NetworkError msg), w1)
          else if retries + 1 > 5 then (Threw (FailedAfterRetries (retries + 1) msg), w1)
          else
            fetch_attempts rnd cursor since evs (retries + 1)
              (fst (back_off rnd backoffMs w1)) (snd (back_off rnd backoffMs w1)))"

text \<open>\<^verbatim>\<open>if (cursor) ...\<close> and \<^verbatim>\<open>if (since) ...\<close>: an empty cursor and a zero timestamp are not
  sent.\<close>

definition truthy_cursor :: "string option \<Rightarrow> string option" where
  "truthy_cursor c = (case c of None \<Rightarrow> None | Some s \<Rightarrow> or_null s)"

definition truthy_since :: "int option \<Rightarrow> int option" where
  "truthy_since t = (case t of None \<Rightarrow> None | Some n \<Rightarrow> if n = 0 then None else Some n)"

definition fetchPageOfUsers :: "(nat \<Rightarrow> real) \<Rightarrow> string option \<Rightarrow> int option \<Rightarrow> event list
    \<Rightarrow> world \<Rightarrow> PrivyResponse outcome \<times> world" where
  "fetchPageOfUsers rnd cursor since evs w =
     fetch_attempts rnd (truthy_cursor cursor) (truthy_since since) evs 0 initialBackoffMs w"

subsection \<open>The pagination loop\<close>

text \<open>How a run ends: the pass is complete, an error was thrown, or the script of the upstream
  is used up while a request is waiting for its response.\<close>

datatype run_result =
    Done (world_of: world)
  | Failed (error_of: error) (world_of: world)
  | Stuck (world_of: world)

definition cooldown :: "nat \<Rightarrow> world \<Rightarrow> world" where
  "cooldown totalUsers w =
     (if totalUsers > 0 \<and> totalUsers mod usersBatchSize = 0 then emit (Sleep batchCooldownMs) w
      else w)"

text \<open>
  The \<^verbatim>\<open>do ... while\<close> loop of \<^verbatim>\<open>getAllUsers\<close>. The script gives, for each call of
  \<^verbatim>\<open>fetchPageOfUsers\<close> in turn, the events of its attempts.
\<close>

fun paging_loop :: "(nat \<Rightarrow> real) \<Rightarrow> int option \<Rightarrow> event list list \<Rightarrow> string option \<Rightarrow> bool
    \<Rightarrow> nat \<Rightarrow> nat \<Rightarrow> world \<Rightarrow> run_result" where
  "paging_loop rnd sinceTimestamp [] cursor isFirstBatch totalUsers processedUsers w =
     Stuck (snd (fetchPageOfUsers rnd (truthy_cursor cursor) sinceTimestamp []
       (cooldown totalUsers w)))"
| "paging_loop rnd sinceTimestamp (evs # script) cursor isFirstBatch totalUsers processedUsers w =
     (case fetchPageOfUsers rnd (truthy_cursor cursor) sinceTimestamp evs (cooldown totalUsers w) of
        (Pending, w1) \<Rightarrow> Stuck w1
      | (Threw e, w1) \<Rightarrow> Failed e w1
      | (Returned query, w1) \<Rightarrow>
          (case data query of
             None \<Rightarrow> Failed InvalidResponseFormat w1
           | Some users \<Rightarrow>
               (let appended = (if length users > 0 then appendUsersToFile users isFirstBatch w1
                                else (0, w1));
                    w2 = saveCursor (next_cursor query) (snd appended)
                in if length users = 0 \<and> truthy_cursor (next_cursor query) = None then Done w2
                   else if next_cursor query = None then Done w2
                   else paging_loop rnd sinceTimestamp script (next_cursor query)
                          (if length users > 0 then False else isFirstBatch)
                          (totalUsers + fst appended)
                          (if length users > 0 then processedUsers + length users
                           else processedUsers)
                          w2)))"

definition unlink_cursor :: "world \<Rightarrow> world" where
  "unlink_cursor w = emit UnlinkCursor (w\<lparr>cursor_file := None\<rparr>)"

definition getAllUsers :: "(nat \<Rightarrow> real) \<Rightarrow> int option \<Rightarrow> event list list \<Rightarrow> world
    \<Rightarrow> run_result" where
  "getAllUsers rnd sinceTimestamp script w =
     (let cursor = loadSavedCursor w in
      case paging_loop rnd sinceTimestamp script cursor (truthy_cursor cursor = None) 0 0 w of
        Done w1 \<Rightarrow> Done (unlink_cursor w1)
      | Failed e w1 \<Rightarrow> Failed e w1
      | Stuck w1 \<Rightarrow> Stuck w1)"

text \<open>
  \<^verbatim>\<open>main\<close>, for the value of \<^verbatim>\<open>FETCH_NEW_ONLY === "true"\<close> and the clock reading
  \<^verbatim>\<open>Math.floor(Date.now() / 1000)\<close> taken at its start.
\<close>

definition main :: "bool \<Rightarrow> int \<Rightarrow> (nat \<Rightarrow> real) \<Rightarrow> event list list \<Rightarrow> world \<Rightarrow> run_result" where
  "main fetchNewOnly currentTimestamp rnd script w =
     (let w1 = loadExistingUserIds w;
          lastFetchTimestamp = loadLastFetchTimestamp w1
      in case (if fetchNewOnly \<and> lastFetchTimestamp \<noteq> None
               then getAllUsers rnd lastFetchTimestamp script w1
               else getAllUsers rnd None script w1) of
           Done w2 \<Rightarrow> Done (saveTimestamp currentTimestamp w2)
         | Failed e w2 \<Rightarrow> Failed e w2
         | Stuck w2 \<Rightarrow> Stuck w2)"

text \<open>A new process over the files that are on disk: nothing in memory, nothing done yet.\<close>

definition start_process :: "string option \<Rightarrow> string option \<Rightarrow> string option \<Rightarrow> world" where
  "start_process users cursor timestamp =
     \<lparr>users_file = users, cursor_file = cursor, timestamp_file = timestamp,
      processedUserIds = {}, draws = 0, trace = []\<rparr>"

section \<open>Observations and sample inputs\<close>

text \<open>The output file after some rows were written: the header and the rows, one per line.\<close>

definition export_file :: "string list \<Rightarrow> string" where
  "export_file rows = concat (map (\<lambda>l. l @ [newline]) (csv_header # rows))"

definition alice :: PrivyUser where
  "alice = \<lparr>user_id = ''a'', created_at = 100, is_guest = False, linked_accounts = []\<rparr>"

text \<open>A user whose identifier has a line feed between two letters.\<close>

definition multiline_user :: PrivyUser where
  "multiline_user =
     \<lparr>user_id = [CHR ''a'', newline, CHR ''b''], created_at = 100, is_guest = False,
      linked_accounts = []\<rparr>"

text \<open>What a trace shows: the delays slept, the page requests sent (cursor and
  \<^verbatim>\<open>created_after\<close> parameter) and the cursors written to the cursor file.\<close>

fun sleeps :: "effect list \<Rightarrow> real list" where
  "sleeps [] = []"
| "sleeps (Sleep ms # t) = ms # sleeps t"
| "sleeps (e # t) = sleeps t"

fun requests :: "effect list \<Rightarrow> (string option \<times> int option) list" where
  "requests [] = []"
| "requests (Request c s # t) = (c, s) # requests t"
| "requests (e # t) = requests t"

fun checkpoints :: "effect list \<Rightarrow> string list" where
  "checkpoints [] = []"
| "checkpoints (WriteCursor c # t) = c # checkpoints t"
| "checkpoints (e # t) = checkpoints t"

text \<open>The two kinds of attempt that \<^verbatim>\<open>fetchPageOfUsers\<close> answers with a retry: an HTTP 429, and a
  transport failure whose message does not contain \<^verbatim>\<open>HTTP error\<close>.\<close>

definition is_rate_limited :: "event \<Rightarrow> bool" where
  "is_rate_limited e = (case e of Response status body \<Rightarrow> status = 429 | NetworkFailure msg \<Rightarrow> False)"

definition is_retried_failure :: "event \<Rightarrow> bool" where
  "is_retried_failure e =
     (case e of Response status body \<Rightarrow> False | NetworkFailure msg \<Rightarrow> \<not> str_includes msg ''HTTP error'')"

definition retried :: "event \<Rightarrow> bool" where
  "retried e = (is_rate_limited e \<or> is_retried_failure e)"

definition rate_limited :: event where
  "rate_limited = Response 429 \<lparr>data = None, next_cursor = None\<rparr>"

definition connection_reset :: event where
  "connection_reset = NetworkFailure ''ECONNRESET''"

text \<open>A source of random numbers that always gives one half: the jitter is then exactly 1.\<close>

definition mid_random :: "nat \<Rightarrow> real" where
  "mid_random n = 1 / 2"

text \<open>
  The delays of the backoff as the specification words them: each delay is
  \<open>min maxDelay (previousDelay * factor * jitter)\<close> with factor 2, maximum 60000 and a jitter
  of \<open>1 + uniform (- 0.1, 0.1)\<close>; \<open>k\<close> is the index of the next random number.
\<close>

fun backoff_delays :: "(nat \<Rightarrow> real) \<Rightarrow> nat \<Rightarrow> real \<Rightarrow> nat \<Rightarrow> real list" where
  "backoff_delays rnd k previousDelay 0 = []"
| "backoff_delays rnd k previousDelay (Suc n) =
     min 60000 (previousDelay * 2 * (1 + (2 * rnd k - 1) * (1 / 10)))
       # backoff_delays rnd (Suc k)
           (min 60000 (previousDelay * 2 * (1 + (2 * rnd k - 1) * (1 / 10)))) n"

text \<open>Every attempt of the list is answered with a retry, when \<open>r\<close> retries were made before
  it: a 429 always, a transport failure while the counter is below 5.\<close>

fun survives :: "nat \<Rightarrow> event list \<Rightarrow> bool" where
  "survives r [] = True"
| "survives r (e # es) = ((is_rate_limited e \<or> is_retried_failure e \<and> r < 5) \<and> survives (Suc r) es)"

text \<open>The files a run leaves behind, as the next process finds them.\<close>

definition restart :: "world \<Rightarrow> world" where
  "restart w = start_process (users_file w) (cursor_file w) (timestamp_file w)"

text \<open>What a call of \<^verbatim>\<open>fetchPageOfUsers\<close> returns or throws for the attempts \<open>evs\<close>; the request,
  the random numbers and the world have no part in it.\<close>

definition fetched :: "event list \<Rightarrow> PrivyResponse outcome" where
  "fetched evs = fst (fetch_attempts mid_random None None evs 0 initialBackoffMs (start_process None None None))"

text \<open>After this page the loop goes on to another request: the cursor is not null, and it is
  not the case that the page is empty while the cursor is the empty string.\<close>

definition continues :: "PrivyResponse \<Rightarrow> bool" where
  "continues q = (next_cursor q \<noteq> None \<and> \<not> (data q = Some [] \<and> next_cursor q = Some []))"

text \<open>
  The pages of a pass in the words of the specification: the pages that were fetched and
  processed, up to the first call that fails or does not return, or the first page with a
  malformed body, or the page that ends the pass.
\<close>

fun processed_pages :: "event list list \<Rightarrow> PrivyResponse list" where
  "processed_pages [] = []"
| "processed_pages (evs # script) =
     (case fetched evs of
        Returned q \<Rightarrow>
          if data q = None then []
          else if continues q then q # processed_pages script
          else [q]
      | Threw e \<Rightarrow> []
      | Pending \<Rightarrow> [])"

text \<open>A script in which every call succeeds at its first attempt.\<close>

definition served :: "PrivyResponse list \<Rightarrow> event list list" where
  "served pages = map (\<lambda>q. [Response 200 q]) pages"

text \<open>Users with the identifiers \<^verbatim>\<open>0\<close>, \<^verbatim>\<open>1\<close>, \<^verbatim>\<open>2\<close>, ...\<close>

definition numbered_user :: "nat \<Rightarrow> PrivyUser" where
  "numbered_user i =
     \<lparr>user_id = string_of_nat i, created_at = 100, is_guest = False, linked_accounts = []\<rparr>"

definition numbered_users :: "nat \<Rightarrow> PrivyUser list" where
  "numbered_users n = map numbered_user [0..<n]"

text \<open>The state after a fetched page \<open>q\<close> with a well-formed body was processed (its users
  appended, its cursor saved), and the number of new users it brought.\<close>

definition page_done :: "PrivyResponse \<Rightarrow> bool \<Rightarrow> world \<Rightarrow> world" where
  "page_done q isFirstBatch w =
     saveCursor (next_cursor q)
       (if length (the (data q)) > 0 then snd (appendUsersToFile (the (data q)) isFirstBatch w) else w)"

definition page_new :: "PrivyResponse \<Rightarrow> bool \<Rightarrow> world \<Rightarrow> nat" where
  "page_new q isFirstBatch w =
     (if length (the (data q)) > 0 then fst (appendUsersToFile (the (data q)) isFirstBatch w) else 0)"

text \<open>Sample pages and a response that is a fatal error.\<close>

definition first_page :: PrivyResponse where
  "first_page = \<lparr>data = Some [alice], next_cursor = Some ''c1''\<rparr>"

definition last_page :: PrivyResponse where
  "last_page = \<lparr>data = Some [alice], next_cursor = None\<rparr>"

definition blank_cursor_page :: PrivyResponse where
  "blank_cursor_page = \<lparr>data = Some [], next_cursor = Some []\<rparr>"

definition server_error :: event where
  "server_error = Response 500 \<lparr>data = None, next_cursor = None\<rparr>"

text \<open>An identifier that the reader of the output file gets back unchanged: no comma, no
  double quote, no line feed.\<close>

definition clean_id :: "string \<Rightarrow> bool" where
  "clean_id i = (comma \<notin> set i \<and> dquote \<notin> set i \<and> newline \<notin> set i)"

definition clean_user :: "PrivyUser \<Rightarrow> bool" where
  "clean_user u = clean_id (user_id u)"

text \<open>The output file that holds the header and the rows of the users \<open>us\<close>.\<close>

definition sink_of :: "PrivyUser list \<Rightarrow> string" where
  "sink_of us = export_file (map formatUserToCsvRow us)"

text \<open>The users of a batch that \<^verbatim>\<open>appendUsersToFile\<close> takes as new, for the index \<open>ids\<close>.\<close>

fun fresh_users :: "string set \<Rightarrow> PrivyUser list \<Rightarrow> PrivyUser list" where
  "fresh_users ids [] = []"
| "fresh_users ids (u # us) =
     (if user_id u \<notin> ids then u # fresh_users (insert (user_id u) ids) us else fresh_users ids us)"

text \<open>
  No identifier is twice in the output file: the file is missing or empty, or it is the header
  followed by the rows of users with pairwise distinct, clean identifiers. \<open>sink_ok\<close> is the
  invariant of the loop: for an empty file the header is still to be written, and otherwise
  the index knows every identifier of the file.
\<close>

definition exported :: "world \<Rightarrow> bool" where
  "exported w = (or_empty (users_file w) = [] \<or>
     (\<exists>us. users_file w = Some (sink_of us) \<and> distinct (map user_id us) \<and> list_all clean_user us))"

definition sink_ok :: "bool \<Rightarrow> world \<Rightarrow> bool" where
  "sink_ok isFirstBatch w = (or_empty (users_file w) = [] \<and> isFirstBatch \<or>
     (\<exists>us. users_file w = Some (sink_of us) \<and> distinct (map user_id us) \<and> list_all clean_user us \<and>
        user_id ` set us \<subseteq> processedUserIds w))"

text \<open>Every user of every page that the script serves has a clean identifier.\<close>

definition clean_script :: "event list list \<Rightarrow> bool" where
  "clean_script script =
     list_all (\<lambda>evs. case fetched evs of
        Returned q \<Rightarrow> (case data q of None \<Rightarrow> True | Some us \<Rightarrow> list_all clean_user us)
      | Threw e \<Rightarrow> True | Pending \<Rightarrow> True) script"

text \<open>A page of 2501 users with a cursor, and the empty page that ends a pass.\<close>

definition big_page :: PrivyResponse where
  "big_page = \<lparr>data = Some (numbered_users 2501), next_cursor = Some ''c1''\<rparr>"

definition empty_last_page :: PrivyResponse where
  "empty_last_page = \<lparr>data = Some [], next_cursor = None\<rparr>"

text \<open>
  Three runs in a row, from an empty directory: the first gets an empty page with a cursor
  and then a server error; the second resumes from the cursor and gets a last page with one
  user; the third starts afresh and gets the same page.
\<close>

definition cursor_only_page :: PrivyResponse where
  "cursor_only_page = \<lparr>data = Some [], next_cursor = Some ''c1''\<rparr>"

definition after_failed_start :: world where
  "after_failed_start =
     world_of (main False 1000 mid_random [[Response 200 cursor_only_page], [server_error]]
       (start_process None None None))"

definition after_resumed_run :: world where
  "after_resumed_run =
     world_of (main False 2000 mid_random [[Response 200 last_page]] (restart after_failed_start))"

definition after_second_run :: world where
  "after_second_run =
     world_of (main False 3000 mid_random [[Response 200 last_page]] (restart after_resumed_run))"

text \<open>A user with a comma in the identifier, and the page that serves it.\<close>

definition carol :: PrivyUser where
  "carol = \<lparr>user_id = ''a,b'', created_at = 100, is_guest = False, linked_accounts = []\<rparr>"

definition carol_page :: PrivyResponse where
  "carol_page = \<lparr>data = Some [carol], next_cursor = None\<rparr>"


fun appended :: "effect list \<Rightarrow> string" where
  "appended [] = []"
| "appended (AppendUsers text # t) = text @ appended t"
| "appended (e # t) = appended t"



section \<open>Properties\<close>

subsection \<open>Cursor round trip\<close>

text \<open>
  C9. Saving a cursor and loading it again gives the trimmed cursor when the trimmed text is
  not empty, and null otherwise; a saved null cursor (an empty file) loads as null.
\<close>

theorem cursor_roundtrip:
  "loadSavedCursor (saveCursor c w) =
     (case c of None \<Rightarrow> None
      | Some s \<Rightarrow> if trim s = [] then None else Some (trim s))"
  by (cases c) (simp_all add: loadSavedCursor_def saveCursor_def emit_def or_empty_def or_null_def trim_def)

subsection \<open>The dedup index read back from the output file\<close>

lemma split_on_nonempty: "split_on c s \<noteq> []"
  by (induction s) (auto split: list.splits)

lemma split_on_append_sep: "split_on c (xs @ c # ys) = split_on c xs @ split_on c ys"
proof (induction xs)
  case Nil
  then show ?case by simp
next
  case (Cons x xs)
  then show ?case using split_on_nonempty [of c xs] by (cases "split_on c xs") auto
qed

lemma split_on_no_sep: "c \<notin> set xs \<Longrightarrow> split_on c xs = [xs]"
  by (induction xs) auto

lemma hd_split_on_append: "c \<notin> set xs \<Longrightarrow> hd (split_on c (xs @ ys)) = xs @ hd (split_on c ys)"
  using split_on_nonempty by (induction xs) (auto split: list.splits)

lemma lines_of_file:
  "split_on newline (concat (map (\<lambda>l. l @ [newline]) ls)) = concat (map (split_on newline) ls) @ [[]]"
  by (induction ls) (simp_all add: split_on_append_sep)

lemma trim_keeps_prefix:
  assumes "p \<noteq> []" "\<not> is_ws (hd p)" "\<not> is_ws (last p)"
  shows "trim (p @ s) = p @ rev (dropWhile is_ws (rev s))"
proof -
  have a: "dropWhile is_ws (p @ s) = p @ s"
    using assms by (cases p) auto
  have b: "dropWhile is_ws (rev s @ rev p) = dropWhile is_ws (rev s) @ rev p"
  proof (cases "\<forall>x\<in>set (rev s). is_ws x")
    case True
    then have "dropWhile is_ws (rev s @ rev p) = dropWhile is_ws (rev p)"
      by (simp add: dropWhile_append)
    moreover have "dropWhile is_ws (rev p) = rev p"
      using assms by (cases "rev p") (auto simp: last_rev hd_rev)
    moreover have "dropWhile is_ws (rev s) = []" using True by simp
    ultimately show ?thesis by simp
  next
    case False
    then show ?thesis by (auto simp: dropWhile_append)
  qed
  show ?thesis by (simp add: trim_def a b)
qed

lemma index_line_eq:
  "index_line l ids =
     (if trim l = [] then ids else insert (remove_quotes (hd (split_on comma (trim l)))) ids)"
  using split_on_nonempty [of comma "trim l"]
  by (cases "split_on comma (trim l)") (simp_all add: index_line_def Let_def)

lemma in_fold_index_line:
  "x \<in> fold index_line ls ids \<longleftrightarrow>
     x \<in> ids \<or> (\<exists>l\<in>set ls. trim l \<noteq> [] \<and> x = remove_quotes (hd (split_on comma (trim l))))"
proof (induction ls arbitrary: ids)
  case Nil
  then show ?case by simp
next
  case (Cons l ls)
  have "x \<in> fold index_line (l # ls) ids \<longleftrightarrow> x \<in> fold index_line ls (index_line l ids)"
    by simp
  also have "\<dots> \<longleftrightarrow> x \<in> index_line l ids \<or>
      (\<exists>l\<in>set ls. trim l \<noteq> [] \<and> x = remove_quotes (hd (split_on comma (trim l))))"
    by (rule Cons.IH)
  also have "x \<in> index_line l ids \<longleftrightarrow>
      x \<in> ids \<or> (trim l \<noteq> [] \<and> x = remove_quotes (hd (split_on comma (trim l))))"
    by (auto simp: index_line_eq)
  finally show ?case by auto
qed

lemma row_shape:
  "\<exists>rest. formatUserToCsvRow u = quoted (user_id u) @ comma # rest"
  by (simp add: formatUserToCsvRow_def Let_def)

lemma quoted_first_column:
  assumes "comma \<notin> set i" "dquote \<notin> set i" "newline \<notin> set i"
  shows "trim (hd (split_on newline (quoted i @ comma # rest))) \<noteq> [] \<and>
     remove_quotes (hd (split_on comma (trim (hd (split_on newline (quoted i @ comma # rest)))))) = i"
proof -
  let ?p = "quoted i @ [comma]"
  have nl: "newline \<notin> set ?p"
    using assms by (simp add: quoted_def newline_def dquote_def comma_def)
  have "hd (split_on newline (?p @ rest)) = ?p @ hd (split_on newline rest)"
    using nl by (rule hd_split_on_append)
  then have L: "hd (split_on newline (quoted i @ comma # rest)) = ?p @ hd (split_on newline rest)"
    by simp
  have "trim (?p @ hd (split_on newline rest)) = ?p @ rev (dropWhile is_ws (rev (hd (split_on newline rest))))"
    by (rule trim_keeps_prefix) (simp_all add: quoted_def is_ws_def dquote_def comma_def)
  then have T: "trim (hd (split_on newline (quoted i @ comma # rest))) =
      quoted i @ comma # rev (dropWhile is_ws (rev (hd (split_on newline rest))))"
    using L by simp
  have "comma \<notin> set (quoted i)"
    using assms by (simp add: quoted_def dquote_def comma_def)
  then have "hd (split_on comma (quoted i @ comma # rev (dropWhile is_ws (rev (hd (split_on newline rest)))))) = quoted i"
    by (simp add: split_on_append_sep split_on_no_sep)
  moreover have "remove_quotes (quoted i) = i"
    using assms by (auto simp: remove_quotes_def quoted_def filter_id_conv)
  ultimately show ?thesis using T by simp
qed


lemma in_lines_of_rows:
  assumes "r \<in> set rows"
  shows "hd (split_on newline r) \<in> set (concat (map (split_on newline) rows))"
  using assms split_on_nonempty [of newline r] by (auto intro!: bexI [of _ r])



lemma header_one_line: "split_on newline csv_header = [csv_header]"
    by (rule split_on_no_sep) (simp add: csv_header_def newline_def)

lemma lines_of_export:
  "split_on newline (export_file rows) = csv_header # concat (map (split_on newline) rows) @ [[]]"
  unfolding export_file_def lines_of_file by (simp add: header_one_line)

lemma header_not_empty: "csv_header \<noteq> []"
    by (simp add: csv_header_def)

lemma index_of_export:
  "processedUserIds (loadExistingUserIds (start_process (Some (export_file rows)) c t)) =
     fold index_line (concat (map (split_on newline) rows) @ [[]]) {}"
  unfolding loadExistingUserIds_def start_process_def
  by (simp only: option.case world.simps lines_of_export drop_Suc_Cons drop_0 One_nat_def)

lemma export_not_empty:
  "or_empty (users_file (loadExistingUserIds (start_process (Some (export_file rows)) c t))) \<noteq> []"
  unfolding loadExistingUserIds_def start_process_def export_file_def
  using header_not_empty by (simp add: or_empty_def)

lemma append_known_user: "user_id u \<in> processedUserIds w \<Longrightarrow> or_empty (users_file w) \<noteq> [] \<Longrightarrow> appendUsersToFile [u] isFirstBatch w = (0, w)"
  by (simp add: appendUsersToFile_def Let_def)

lemma exported_id_indexed:
  assumes "clean_id (user_id u)" and "formatUserToCsvRow u \<in> set rows"
  shows "user_id u \<in> processedUserIds (loadExistingUserIds (start_process (Some (export_file rows)) c t))"
proof -
  obtain rest where row: "formatUserToCsvRow u = quoted (user_id u) @ comma # rest"
    using row_shape by blast
  let ?l = "hd (split_on newline (formatUserToCsvRow u))"
  have inl: "?l \<in> set (concat (map (split_on newline) rows) @ [[]])"
    using in_lines_of_rows [OF assms(2)] by simp
  have "trim (hd (split_on newline (quoted (user_id u) @ comma # rest))) \<noteq> [] \<and>
     remove_quotes (hd (split_on comma (trim (hd (split_on newline (quoted (user_id u) @ comma # rest)))))) = user_id u"
    using assms(1) unfolding clean_id_def by (intro quoted_first_column) simp_all
  then have col: "trim ?l \<noteq> [] \<and> user_id u = remove_quotes (hd (split_on comma (trim ?l)))"
    by (simp add: row)
  have "user_id u \<in> fold index_line (concat (map (split_on newline) rows) @ [[]]) {}"
    by (subst in_fold_index_line, rule disjI2, rule bexI [of _ ?l], rule col, rule inl)
  then show ?thesis
    by (simp only: index_of_export)
qed

text \<open>
  C10, as amended. For every user whose id has no comma, no double quote and no line feed:
  when the output file is the header line followed by rows among which is the row of that
  user, the index rebuilt from the file contains the id, and a later batch that holds the user
  again counts a duplicate, appends nothing and leaves the state unchanged.
\<close>

theorem index_contains_exported_id:
  assumes "comma \<notin> set (user_id u)" and "dquote \<notin> set (user_id u)"
    and "newline \<notin> set (user_id u)"
    and "formatUserToCsvRow u \<in> set rows"
  shows "user_id u \<in> processedUserIds (loadExistingUserIds (start_process (Some (export_file rows)) c t)) \<and>
    add_user u (csv, processedUserIds (loadExistingUserIds (start_process (Some (export_file rows)) c t)), n, d) =
      (csv, processedUserIds (loadExistingUserIds (start_process (Some (export_file rows)) c t)), n, d + 1) \<and>
    appendUsersToFile [u] isFirstBatch (loadExistingUserIds (start_process (Some (export_file rows)) c t)) =
      (0, loadExistingUserIds (start_process (Some (export_file rows)) c t))"
proof -
  let ?w = "loadExistingUserIds (start_process (Some (export_file rows)) c t)"
  have "clean_id (user_id u)"
    using assms(1-3) by (simp add: clean_id_def)
  then have mem: "user_id u \<in> processedUserIds ?w"
    using assms(4) by (rule exported_id_indexed)
  have "appendUsersToFile [u] isFirstBatch ?w = (0, ?w)"
    using mem export_not_empty by (rule append_known_user)
  then show ?thesis using mem by simp
qed

theorem index_contains_exported_id_witness:
  "user_id alice \<in> processedUserIds
     (loadExistingUserIds (start_process (Some (export_file [formatUserToCsvRow alice])) None None))"
  using index_contains_exported_id [of alice "[formatUserToCsvRow alice]" None None]
  by (simp add: alice_def comma_def dquote_def newline_def)

text \<open>
  The line feed cannot be left out: the row of a user with the id \<^verbatim>\<open>a\nb\<close> spans two lines of
  the file, and the index gets \<^verbatim>\<open>a\<close> and \<^verbatim>\<open>b\<close> but not the id.
\<close>

theorem index_misses_multiline_id:
  "comma \<notin> set (user_id multiline_user) \<and> dquote \<notin> set (user_id multiline_user) \<and>
   user_id multiline_user \<notin> processedUserIds
     (loadExistingUserIds
        (start_process (Some (export_file [formatUserToCsvRow multiline_user])) None None))"
  by (simp add: multiline_user_def loadExistingUserIds_def start_process_def export_file_def
      csv_header_def formatUserToCsvRow_def Let_def newline_def comma_def dquote_def quoted_def
      index_line_def trim_def is_ws_def remove_quotes_def toString_def string_of_nat.simps
      digit_char_def digit_table_def account_address_def)

subsection \<open>Retries of one page fetch\<close>

lemma sleeps_append: "sleeps (a @ b) = sleeps a @ sleeps b"
  by (induction a rule: sleeps.induct) simp_all

lemma requests_append: "requests (a @ b) = requests a @ requests b"
  by (induction a rule: requests.induct) simp_all

lemma checkpoints_append: "checkpoints (a @ b) = checkpoints a @ checkpoints b"
  by (induction a rule: checkpoints.induct) simp_all

lemma back_off_world:
  "snd (back_off rnd b w) = emit (Sleep (fst (back_off rnd b w))) (w\<lparr>draws := Suc (draws w)\<rparr>)"
  "fst (back_off rnd b w) = next_backoff b (rnd (draws w))"
  by (simp_all add: back_off_def Let_def)

lemma fetch_rate_limited:
  "is_rate_limited e \<Longrightarrow> fetch_attempts rnd c s (e # evs) r b w =
     fetch_attempts rnd c s evs (Suc r) (fst (back_off rnd b (emit (Request c s) w)))
       (snd (back_off rnd b (emit (Request c s) w)))"
  by (cases e) (simp_all add: is_rate_limited_def Let_def)

lemma fetch_retried_failure:
  "is_retried_failure e \<Longrightarrow> r < 5 \<Longrightarrow> fetch_attempts rnd c s (e # evs) r b w =
     fetch_attempts rnd c s evs (Suc r) (fst (back_off rnd b (emit (Request c s) w)))
       (snd (back_off rnd b (emit (Request c s) w)))"
  by (cases e) (simp_all add: is_retried_failure_def Let_def)

lemma fetch_exhausted:
  "\<not> str_includes m ''HTTP error'' \<Longrightarrow> 5 \<le> r \<Longrightarrow>
     fst (fetch_attempts rnd c s (NetworkFailure m # evs) r b w) = Threw (FailedAfterRetries (Suc r) m)"
  by (simp add: Let_def)

lemma fetch_success:
  "fst (fetch_attempts rnd c s (Response 200 body # evs) r b w) = Returned body"
  by (simp add: Let_def)

lemma thrown_count_exceeds:
  "fst (fetch_attempts rnd c s evs r b w) = Threw (FailedAfterRetries n m) \<Longrightarrow> r < n"
proof (induction evs arbitrary: r b w)
  case Nil
  then show ?case by simp
next
  case (Cons e evs)
  show ?case
  proof (cases e)
    case (Response status body)
    with Cons.prems show ?thesis
      by (auto simp: Let_def split: if_splits dest!: Cons.IH)
  next
    case (NetworkFailure msg)
    with Cons.prems show ?thesis
      by (auto simp: Let_def split: if_splits dest!: Cons.IH)
  qed
qed

lemma survives_split:
  "list_all retried (take (5 - r) pre) \<Longrightarrow> list_all is_rate_limited (drop (5 - r) pre) \<Longrightarrow> survives r pre"
proof (induction pre arbitrary: r)
  case Nil
  then show ?case by simp
next
  case (Cons e pre)
  show ?case
  proof (cases "r < 5")
    case True
    then have eq: "5 - r = Suc (5 - Suc r)" by simp
    from Cons.prems(1) have a: "retried e \<and> list_all retried (take (5 - Suc r) pre)"
      unfolding eq by simp
    from Cons.prems(2) have b: "list_all is_rate_limited (drop (5 - Suc r) pre)"
      unfolding eq by simp
    have "survives (Suc r) pre"
      using a [THEN conjunct2] b by (rule Cons.IH)
    moreover have "is_rate_limited e \<or> is_retried_failure e \<and> r < 5"
      using a True by (simp add: retried_def)
    ultimately show ?thesis by simp
  next
    case False
    then have eq: "5 - r = 0" "5 - Suc r = 0" by simp_all
    from Cons.prems(2) have b: "is_rate_limited e \<and> list_all is_rate_limited (drop (5 - Suc r) pre)"
      unfolding eq by simp
    have t: "list_all retried (take (5 - Suc r) pre)"
      unfolding eq by simp
    have "survives (Suc r) pre"
      using t b [THEN conjunct2] by (rule Cons.IH)
    with b show ?thesis by simp
  qed
qed

lemma fetch_through_retries:
  "survives r pre \<Longrightarrow>
   \<exists>b' w'. fetch_attempts rnd c s (pre @ rest) r b w = fetch_attempts rnd c s rest (r + length pre) b' w'"
proof (induction pre arbitrary: r b w)
  case Nil
  then show ?case by auto
next
  case (Cons e pre)
  let ?b = "fst (back_off rnd b (emit (Request c s) w))"
  let ?w = "snd (back_off rnd b (emit (Request c s) w))"
  from Cons.prems have "is_rate_limited e \<or> is_retried_failure e \<and> r < 5" by simp
  then have step: "fetch_attempts rnd c s (e # pre @ rest) r b w =
      fetch_attempts rnd c s (pre @ rest) (Suc r) ?b ?w"
    using fetch_rate_limited [of e rnd c s "pre @ rest" r b w]
      fetch_retried_failure [of e r rnd c s "pre @ rest" b w] by blast
  from Cons.prems have "survives (Suc r) pre" by simp
  from Cons.IH [OF this, of ?b ?w] step show ?case by auto
qed

text \<open>
  C2, as amended. One counter, \<^verbatim>\<open>retries\<close>, counts the 429 responses and the transport failures
  of a call together. After any attempts that were all retried (the first five of either kind,
  the later ones 429 responses), a success returns the page, however many 429 responses came
  before it; and a transport failure ends the call with the exhausted-retries error exactly
  when at least five retries of either kind came before it.
\<close>

theorem retry_counter_shared:
  assumes "list_all retried (take 5 pre)" and "list_all is_rate_limited (drop 5 pre)"
    and "\<not> str_includes m ''HTTP error''"
  shows "fst (fetchPageOfUsers rnd cursor since (pre @ [Response 200 body]) w) = Returned body \<and>
    (fst (fetchPageOfUsers rnd cursor since (pre @ NetworkFailure m # rest) w) =
       Threw (FailedAfterRetries (length pre + 1) m)) = (5 \<le> length pre)"
proof -
  have sv: "survives 0 pre"
    using assms(1,2) survives_split [of 0 pre] by simp
  let ?c = "truthy_cursor cursor" and ?s = "truthy_since since"
  obtain b1 w1 where ok: "fetch_attempts rnd ?c ?s (pre @ [Response 200 body]) 0 initialBackoffMs w =
      fetch_attempts rnd ?c ?s [Response 200 body] (0 + length pre) b1 w1"
    using fetch_through_retries [OF sv] by blast
  obtain b2 w2 where nf: "fetch_attempts rnd ?c ?s (pre @ NetworkFailure m # rest) 0 initialBackoffMs w =
      fetch_attempts rnd ?c ?s (NetworkFailure m # rest) (0 + length pre) b2 w2"
    using fetch_through_retries [OF sv] by blast
  have A: "fst (fetchPageOfUsers rnd cursor since (pre @ [Response 200 body]) w) = Returned body"
    unfolding fetchPageOfUsers_def ok by (rule fetch_success)
  have B: "(fst (fetchPageOfUsers rnd cursor since (pre @ NetworkFailure m # rest) w) =
       Threw (FailedAfterRetries (length pre + 1) m)) = (5 \<le> length pre)"
  proof (cases "5 \<le> length pre")
    case True
    then show ?thesis
      unfolding fetchPageOfUsers_def nf using fetch_exhausted [OF assms(3), of "length pre"] by simp
  next
    case False
    then have lt: "length pre < 5" by simp
    have "is_retried_failure (NetworkFailure m)"
      using assms(3) by (simp add: is_retried_failure_def)
    from fetch_retried_failure [OF this lt]
    have "fst (fetch_attempts rnd ?c ?s (NetworkFailure m # rest) (length pre) b2 w2) \<noteq>
        Threw (FailedAfterRetries (Suc (length pre)) m)"
      using thrown_count_exceeds [of rnd ?c ?s rest "Suc (length pre)" _ _ "Suc (length pre)" m]
      by auto
    with False show ?thesis
      unfolding fetchPageOfUsers_def nf by simp
  qed
  from A B show ?thesis by simp
qed

theorem retry_counter_shared_witness:
  "fst (fetchPageOfUsers mid_random None None
          ([rate_limited, rate_limited, rate_limited, rate_limited, rate_limited] @
             [Response 200 \<lparr>data = Some [], next_cursor = None\<rparr>])
          (start_process None None None)) = Returned \<lparr>data = Some [], next_cursor = None\<rparr> \<and>
   fst (fetchPageOfUsers mid_random None None
          ([rate_limited, rate_limited, rate_limited, rate_limited, rate_limited] @
             [NetworkFailure ''ECONNRESET''])
          (start_process None None None)) = Threw (FailedAfterRetries 6 ''ECONNRESET'')"
  using retry_counter_shared [of "[rate_limited, rate_limited, rate_limited, rate_limited, rate_limited]"
      "''ECONNRESET''" mid_random None None "\<lparr>data = Some [], next_cursor = None\<rparr>"
      "start_process None None None" "[]"]
  by (simp add: retried_def is_rate_limited_def rate_limited_def)

text \<open>
  The two counters are not independent: after five 429 responses the first transport failure
  of the call, the only one, is fatal.
\<close>

theorem single_failure_exhausts_retries:
  "fst (fetchPageOfUsers mid_random None None
          [rate_limited, rate_limited, rate_limited, rate_limited, rate_limited, connection_reset]
          (start_process None None None)) = Threw (FailedAfterRetries 6 ''ECONNRESET'') \<and>
   length (filter is_retried_failure
          [rate_limited, rate_limited, rate_limited, rate_limited, rate_limited, connection_reset]) = 1"
  by (simp add: fetchPageOfUsers_def rate_limited_def connection_reset_def Let_def
      is_retried_failure_def truthy_cursor_def truthy_since_def)

subsection \<open>Backoff delays\<close>

lemma next_backoff_spec:
  "next_backoff b r = min 60000 (b * 2 * (1 + (2 * r - 1) * (1 / 10)))"
  by (simp add: next_backoff_def jitter_of_def backoffFactor_def jitterFactor_def maxBackoffMs_def
      min.commute mult.commute)

lemma sleeps_of_rate_limits:
  "sleeps (trace (snd (fetch_attempts rnd c s (replicate n rate_limited) r b w))) =
     sleeps (trace w) @ backoff_delays rnd (draws w) b n"
proof (induction n arbitrary: r b w)
  case 0
  then show ?case by (simp add: emit_def sleeps_append)
next
  case (Suc n)
  let ?w1 = "emit (Request c s) w"
  have rl: "is_rate_limited rate_limited"
    by (simp add: is_rate_limited_def rate_limited_def)
  have step: "fetch_attempts rnd c s (replicate (Suc n) rate_limited) r b w =
      fetch_attempts rnd c s (replicate n rate_limited) (Suc r) (fst (back_off rnd b ?w1))
        (snd (back_off rnd b ?w1))"
    using fetch_rate_limited [OF rl] by simp
  have d: "fst (back_off rnd b ?w1) = min 60000 (b * 2 * (1 + (2 * rnd (draws w) - 1) * (1 / 10)))"
    by (simp add: back_off_world next_backoff_spec emit_def)
  have w': "sleeps (trace (snd (back_off rnd b ?w1))) = sleeps (trace w) @ [fst (back_off rnd b ?w1)]"
    "draws (snd (back_off rnd b ?w1)) = Suc (draws w)"
    by (simp_all add: back_off_world(1) emit_def sleeps_append)
  show ?case
    unfolding step Suc.IH w' by (simp add: d)
qed

lemma delay_step:
  fixes prev r :: real
  assumes "0 \<le> prev" "prev \<le> 60000" "0 \<le> r" "r \<le> 1"
  defines "d \<equiv> min 60000 (prev * 2 * (1 + (2 * r - 1) * (1 / 10)))"
  shows "prev \<le> d" "d \<le> 60000" "min 60000 (prev * (9 / 5)) \<le> d"
proof -
  have j: "9 / 10 \<le> 1 + (2 * r - 1) * (1 / 10)"
    using assms(3) by argo
  have "prev * (9 / 5) = prev * 2 * (9 / 10)" by simp
  also have "\<dots> \<le> prev * 2 * (1 + (2 * r - 1) * (1 / 10))"
    by (rule mult_left_mono [OF j]) (use assms(1) in simp)
  finally have low: "prev * (9 / 5) \<le> prev * 2 * (1 + (2 * r - 1) * (1 / 10))" .
  have "prev \<le> prev * (9 / 5)"
    using assms(1) by simp
  with low have "prev \<le> prev * 2 * (1 + (2 * r - 1) * (1 / 10))" by linarith
  with assms(2) show "prev \<le> d" unfolding d_def by simp
  show "d \<le> 60000" unfolding d_def by simp
  from low show "min 60000 (prev * (9 / 5)) \<le> d" unfolding d_def by (simp add: min_le_iff_disj)
qed

lemma backoff_delays_bounds:
  assumes "\<forall>i. 0 \<le> rnd i \<and> rnd i \<le> 1"
  shows "0 \<le> prev \<Longrightarrow> prev \<le> 60000 \<Longrightarrow>
    list_all (\<lambda>d. min 60000 (prev * (9 / 5)) \<le> d \<and> d \<le> 60000) (backoff_delays rnd k prev n) \<and>
    sorted (backoff_delays rnd k prev n)"
proof (induction n arbitrary: k prev)
  case 0
  then show ?case by simp
next
  case (Suc n)
  define d where "d = min 60000 (prev * 2 * (1 + (2 * rnd k - 1) * (1 / 10)))"
  define tl where "tl = backoff_delays rnd (Suc k) d n"
  define lo where "lo = min 60000 (prev * (9 / 5))"
  have r: "0 \<le> rnd k" "rnd k \<le> 1" using assms by simp_all
  have st: "prev \<le> d" "d \<le> 60000" "lo \<le> d"
    unfolding d_def lo_def by (rule delay_step [OF Suc.prems r])+
  have d0: "0 \<le> d" using st(1) Suc.prems(1) by linarith
  have IH: "list_all (\<lambda>x. min 60000 (d * (9 / 5)) \<le> x \<and> x \<le> 60000) tl \<and> sorted tl"
    unfolding tl_def using d0 st(2) by (rule Suc.IH)
  have up: "d \<le> min 60000 (d * (9 / 5))"
    using d0 st(2) by simp
  have all: "\<forall>x\<in>set tl. d \<le> x \<and> lo \<le> x \<and> x \<le> 60000"
  proof
    fix x assume "x \<in> set tl"
    with IH have "min 60000 (d * (9 / 5)) \<le> x \<and> x \<le> 60000"
      unfolding list_all_iff by blast
    with up st(3) show "d \<le> x \<and> lo \<le> x \<and> x \<le> 60000" by linarith
  qed
  have eq: "backoff_delays rnd k prev (Suc n) = d # tl"
    unfolding d_def tl_def by simp
  have A: "list_all (\<lambda>x. lo \<le> x \<and> x \<le> 60000) (d # tl)"
    using all st by (simp add: list_all_iff)
  have B: "sorted (d # tl)"
    using all IH by simp
  from A B show ?case by (simp only: eq lo_def)
qed

lemma backoff_delays_add:
  "backoff_delays rnd k p (m + n) =
     backoff_delays rnd k p m @
     backoff_delays rnd (k + m) (last (p # backoff_delays rnd k p m)) n"
proof (induction m arbitrary: k p)
  case 0
  then show ?case by simp
next
  case (Suc m)
  show ?case
    by (simp add: Suc.IH)
qed

lemma sleeps_of_retries:
  "survives r pre \<Longrightarrow>
   \<exists>b' w'. fetch_attempts rnd c s (pre @ rest) r b w = fetch_attempts rnd c s rest (r + length pre) b' w' \<and>
     sleeps (trace w') = sleeps (trace w) @ backoff_delays rnd (draws w) b (length pre) \<and>
     draws w' = draws w + length pre \<and> b' = last (b # backoff_delays rnd (draws w) b (length pre))"
proof (induction pre arbitrary: r b w)
  case Nil
  have "fetch_attempts rnd c s ([] @ rest) r b w = fetch_attempts rnd c s rest (r + length ([] :: event list)) b w \<and>
     sleeps (trace w) = sleeps (trace w) @ backoff_delays rnd (draws w) b (length ([] :: event list)) \<and>
     draws w = draws w + length ([] :: event list) \<and>
     b = last (b # backoff_delays rnd (draws w) b (length ([] :: event list)))"
    by simp
  then show ?case by blast
next
  case (Cons e pre)
  let ?w1 = "emit (Request c s) w"
  let ?b = "fst (back_off rnd b ?w1)"
  let ?w = "snd (back_off rnd b ?w1)"
  from Cons.prems have "is_rate_limited e \<or> is_retried_failure e \<and> r < 5" by simp
  then have step: "fetch_attempts rnd c s (e # pre @ rest) r b w =
      fetch_attempts rnd c s (pre @ rest) (Suc r) ?b ?w"
    using fetch_rate_limited [of e rnd c s "pre @ rest" r b w]
      fetch_retried_failure [of e r rnd c s "pre @ rest" b w] by blast
  have d: "?b = min 60000 (b * 2 * (1 + (2 * rnd (draws w) - 1) * (1 / 10)))"
    by (simp add: back_off_world next_backoff_spec emit_def)
  have w1: "sleeps (trace ?w) = sleeps (trace w) @ [?b]" "draws ?w = Suc (draws w)"
    by (simp_all add: back_off_world(1) emit_def sleeps_append)
  from Cons.prems have "survives (Suc r) pre" by simp
  from Cons.IH [OF this, of ?b ?w]
  obtain b' w' where IH: "fetch_attempts rnd c s (pre @ rest) (Suc r) ?b ?w =
        fetch_attempts rnd c s rest (Suc r + length pre) b' w'"
      "sleeps (trace w') = sleeps (trace ?w) @ backoff_delays rnd (draws ?w) ?b (length pre)"
      "draws w' = draws ?w + length pre"
      "b' = last (?b # backoff_delays rnd (draws ?w) ?b (length pre))"
    by blast
  have "fetch_attempts rnd c s ((e # pre) @ rest) r b w =
        fetch_attempts rnd c s rest (r + length (e # pre)) b' w'"
    using step IH(1) by simp
  moreover have "sleeps (trace w') = sleeps (trace w) @ backoff_delays rnd (draws w) b (length (e # pre))"
    unfolding IH(2) w1 d by simp
  moreover have "draws w' = draws w + length (e # pre)"
    unfolding IH(3) w1 by simp
  moreover have "b' = last (b # backoff_delays rnd (draws w) b (length (e # pre)))"
    unfolding IH(4) w1 d by simp
  ultimately show ?case by blast
qed

lemma fetch_sleeps_extend:
  "\<exists>more. sleeps (trace (snd (fetch_attempts rnd c s evs r b w))) = sleeps (trace w) @ more"
proof (induction evs arbitrary: r b w)
  case Nil
  then show ?case by (simp add: emit_def sleeps_append)
next
  case (Cons e evs)
  let ?w = "snd (back_off rnd b (emit (Request c s) w))"
  have more: "\<exists>more. sleeps (trace (snd (fetch_attempts rnd c s evs r' b' ?w))) = sleeps (trace w) @ more" for r' b'
  proof -
    obtain m where "sleeps (trace (snd (fetch_attempts rnd c s evs r' b' ?w))) = sleeps (trace ?w) @ m"
      using Cons.IH by blast
    then have "sleeps (trace (snd (fetch_attempts rnd c s evs r' b' ?w))) =
        sleeps (trace w) @ (fst (back_off rnd b (emit (Request c s) w)) # m)"
      by (simp add: back_off_world(1) emit_def sleeps_append)
    then show ?thesis by blast
  qed
  show ?case
    using more by (cases e) (auto simp: Let_def emit_def sleeps_append)
qed

lemma survives_append_rate_limited:
  "survives r pre \<Longrightarrow> survives r (pre @ replicate n rate_limited)"
proof (induction pre arbitrary: r)
  case Nil
  show ?case
    by (induction n arbitrary: r) (simp_all add: is_rate_limited_def rate_limited_def)
next
  case (Cons e pre)
  then show ?case by simp
qed

lemma previous_delay_bounds:
  assumes "\<forall>i. 0 \<le> rnd i \<and> rnd i \<le> 1"
  shows "1000 \<le> last (1000 # backoff_delays rnd k 1000 m) \<and>
    last (1000 # backoff_delays rnd k 1000 m) \<le> 60000"
proof (cases "backoff_delays rnd k 1000 m = []")
  case True
  then show ?thesis by simp
next
  case False
  have "list_all (\<lambda>d. min 60000 (1000 * (9 / 5)) \<le> d \<and> d \<le> 60000) (backoff_delays rnd k 1000 m)"
    using backoff_delays_bounds [OF assms, of 1000 k m] by simp
  then have "\<forall>d\<in>set (backoff_delays rnd k 1000 m). 1800 \<le> d \<and> d \<le> 60000"
    by (simp add: list_all_iff)
  moreover have "last (backoff_delays rnd k 1000 m) \<in> set (backoff_delays rnd k 1000 m)"
    using False by simp
  ultimately have "1800 \<le> last (backoff_delays rnd k 1000 m) \<and> last (backoff_delays rnd k 1000 m) \<le> 60000"
    by blast
  with False show ?thesis by simp
qed

text \<open>
  C5, as amended. Take a call in which a run of \<open>n\<close> 429 responses comes after attempts that
  were all retried (none, when the run starts the call), and random numbers in \<open>[0, 1]\<close>, so
  that the jitter is in \<open>[0.9, 1.1]\<close>. The delays slept in the call begin with those of the
  earlier retries and go on, for the 429 responses, with the delays of the specification's
  recurrence \<open>min 60000 (previousDelay * 2 * jitter)\<close>, where the previous delay is the delay
  of the retry before the run, of either kind, or the base of 1000 when the run starts the
  call. The base itself is never slept: every delay of the run is at least 1800 and at least
  the previous delay, none exceeds 60000, and the delays never decrease, whatever the jitter.
  Delays are real numbers here, not doubles; no bound stated here is strict.
\<close>

theorem backoff_of_rate_limits:
  assumes "\<forall>i. 0 \<le> rnd i \<and> rnd i \<le> 1"
    and "list_all retried (take 5 pre)" and "list_all is_rate_limited (drop 5 pre)"
  shows "(\<exists>more. sleeps (trace (snd (fetchPageOfUsers rnd cursor since
            (pre @ replicate n rate_limited @ rest) w))) =
       sleeps (trace w) @ backoff_delays rnd (draws w) 1000 (length pre) @
       backoff_delays rnd (draws w + length pre)
         (last (1000 # backoff_delays rnd (draws w) 1000 (length pre))) n @ more) \<and>
    list_all (\<lambda>d. 1800 \<le> d \<and> last (1000 # backoff_delays rnd (draws w) 1000 (length pre)) \<le> d \<and> d \<le> 60000)
      (backoff_delays rnd (draws w + length pre)
         (last (1000 # backoff_delays rnd (draws w) 1000 (length pre))) n) \<and>
    sorted (backoff_delays rnd (draws w + length pre)
         (last (1000 # backoff_delays rnd (draws w) 1000 (length pre))) n)"
proof -
  define prev where "prev = last (1000 # backoff_delays rnd (draws w) 1000 (length pre))"
  define ds where "ds = backoff_delays rnd (draws w + length pre) prev n"
  let ?c = "truthy_cursor cursor" and ?s = "truthy_since since"
  have "survives 0 pre"
    using assms(2,3) survives_split [of 0 pre] by simp
  then have sv: "survives 0 (pre @ replicate n rate_limited)"
    by (rule survives_append_rate_limited)
  obtain b' w' where f: "fetch_attempts rnd ?c ?s ((pre @ replicate n rate_limited) @ rest) 0 1000 w =
        fetch_attempts rnd ?c ?s rest (0 + length (pre @ replicate n rate_limited)) b' w'"
      and sl: "sleeps (trace w') = sleeps (trace w) @
        backoff_delays rnd (draws w) 1000 (length (pre @ replicate n rate_limited))"
    using sleeps_of_retries [OF sv, of rnd ?c ?s rest 1000 w] by blast
  obtain more where m: "sleeps (trace (snd (fetch_attempts rnd ?c ?s rest
        (0 + length (pre @ replicate n rate_limited)) b' w'))) = sleeps (trace w') @ more"
    using fetch_sleeps_extend by blast
  have split: "backoff_delays rnd (draws w) 1000 (length pre + n) =
      backoff_delays rnd (draws w) 1000 (length pre) @ ds"
    unfolding ds_def prev_def using backoff_delays_add [of rnd "draws w" 1000 "length pre" n] by simp
  have "sleeps (trace (snd (fetchPageOfUsers rnd cursor since (pre @ replicate n rate_limited @ rest) w))) =
       sleeps (trace w) @ backoff_delays rnd (draws w) 1000 (length pre) @ ds @ more"
    using f m by (simp add: fetchPageOfUsers_def initialBackoffMs_def sl split)
  then have A: "\<exists>more. sleeps (trace (snd (fetchPageOfUsers rnd cursor since (pre @ replicate n rate_limited @ rest) w))) =
       sleeps (trace w) @ backoff_delays rnd (draws w) 1000 (length pre) @ ds @ more"
    by blast
  have pb: "1000 \<le> prev" "prev \<le> 60000"
    unfolding prev_def using previous_delay_bounds [OF assms(1)] by simp_all
  then have p0: "0 \<le> prev" by simp
  have B0: "list_all (\<lambda>d. min 60000 (prev * (9 / 5)) \<le> d \<and> d \<le> 60000) ds \<and> sorted ds"
    unfolding ds_def using p0 pb(2) by (rule backoff_delays_bounds [OF assms(1)])
  have lo: "1800 \<le> min 60000 (prev * (9 / 5))" "prev \<le> min 60000 (prev * (9 / 5))"
    using pb by simp_all
  have B: "list_all (\<lambda>d. 1800 \<le> d \<and> prev \<le> d \<and> d \<le> 60000) ds"
    unfolding list_all_iff
  proof
    fix d assume "d \<in> set ds"
    with B0 have "min 60000 (prev * (9 / 5)) \<le> d \<and> d \<le> 60000"
      unfolding list_all_iff by blast
    with lo show "1800 \<le> d \<and> prev \<le> d \<and> d \<le> 60000" by linarith
  qed
  from A B B0 show ?thesis
    unfolding ds_def prev_def by blast
qed

theorem backoff_of_rate_limits_witness:
  "\<exists>more. sleeps (trace (snd (fetchPageOfUsers mid_random None None
      ([connection_reset] @ replicate 2 rate_limited @ []) (start_process None None None)))) =
     [2000, 4000, 8000] @ more"
  using backoff_of_rate_limits [of mid_random "[connection_reset]" None None 2 "[]"
      "start_process None None None"]
  by (simp add: mid_random_def start_process_def numeral_2_eq_2 retried_def is_retried_failure_def
      connection_reset_def)

text \<open>
  The first delay is not the base of 1000 ms: with a jitter of exactly 1, the script sleeps
  2000 ms before the first retry.
\<close>

theorem first_delay_is_doubled:
  "sleeps (trace (snd (fetchPageOfUsers mid_random None None [rate_limited]
      (start_process None None None)))) = [2000] \<and> initialBackoffMs = 1000"
  by (simp add: fetchPageOfUsers_def rate_limited_def Let_def back_off_def next_backoff_def
      jitter_of_def mid_random_def start_process_def emit_def initialBackoffMs_def
      backoffFactor_def jitterFactor_def maxBackoffMs_def truthy_cursor_def truthy_since_def)

subsection \<open>What a page fetch leaves unchanged\<close>

lemma truthy_cursor_idem: "truthy_cursor (truthy_cursor c) = truthy_cursor c"
  by (cases c) (simp_all add: truthy_cursor_def or_null_def)

lemma truthy_since_idem: "truthy_since (truthy_since t) = truthy_since t"
  by (cases t) (simp_all add: truthy_since_def)

lemma truthy_cursor_None: "truthy_cursor c = None \<longleftrightarrow> c = None \<or> c = Some []"
  by (cases c) (simp_all add: truthy_cursor_def or_null_def)

lemma emit_fields:
  "users_file (emit e w) = users_file w" "cursor_file (emit e w) = cursor_file w"
  "timestamp_file (emit e w) = timestamp_file w" "processedUserIds (emit e w) = processedUserIds w"
  "draws (emit e w) = draws w" "trace (emit e w) = trace w @ [e]"
  by (simp_all add: emit_def)

lemma back_off_fields:
  "users_file (snd (back_off rnd b w)) = users_file w"
  "cursor_file (snd (back_off rnd b w)) = cursor_file w"
  "timestamp_file (snd (back_off rnd b w)) = timestamp_file w"
  "processedUserIds (snd (back_off rnd b w)) = processedUserIds w"
  "trace (snd (back_off rnd b w)) = trace w @ [Sleep (fst (back_off rnd b w))]"
  by (simp_all add: back_off_def Let_def emit_def)

lemma fetch_attempts_fields:
  "users_file (snd (fetch_attempts rnd c s evs r b w)) = users_file w \<and>
   cursor_file (snd (fetch_attempts rnd c s evs r b w)) = cursor_file w \<and>
   timestamp_file (snd (fetch_attempts rnd c s evs r b w)) = timestamp_file w \<and>
   processedUserIds (snd (fetch_attempts rnd c s evs r b w)) = processedUserIds w \<and>
   checkpoints (trace (snd (fetch_attempts rnd c s evs r b w))) = checkpoints (trace w)"
proof (induction evs arbitrary: r b w)
  case Nil
  then show ?case by (simp add: emit_fields checkpoints_append)
next
  case (Cons e evs)
  show ?case
    by (cases e)
      (simp_all add: Let_def Cons.IH emit_fields back_off_fields checkpoints_append)
qed


lemma fetch_outcome_indep:
  "fst (fetch_attempts rnd c s evs r b w) = fst (fetch_attempts rnd' c' s' evs r b' w')"
proof (induction evs arbitrary: r b w b' w')
  case Nil
  then show ?case by simp
next
  case (Cons e evs)
  show ?case
    by (cases e) (auto simp: Let_def intro: Cons.IH)
qed

lemma fetchPageOfUsers_fetched: "fst (fetchPageOfUsers rnd c s evs w) = fetched evs"
  unfolding fetchPageOfUsers_def fetched_def by (rule fetch_outcome_indep)


lemma fetchPageOfUsers_fields:
  "users_file (snd (fetchPageOfUsers rnd c s evs w)) = users_file w"
  "cursor_file (snd (fetchPageOfUsers rnd c s evs w)) = cursor_file w"
  "timestamp_file (snd (fetchPageOfUsers rnd c s evs w)) = timestamp_file w"
  "processedUserIds (snd (fetchPageOfUsers rnd c s evs w)) = processedUserIds w"
  "checkpoints (trace (snd (fetchPageOfUsers rnd c s evs w))) = checkpoints (trace w)"
  unfolding fetchPageOfUsers_def using fetch_attempts_fields by blast+


lemma cooldown_fields:
  "users_file (cooldown n w) = users_file w" "cursor_file (cooldown n w) = cursor_file w"
  "timestamp_file (cooldown n w) = timestamp_file w"
  "processedUserIds (cooldown n w) = processedUserIds w"
  "checkpoints (trace (cooldown n w)) = checkpoints (trace w)"
  "requests (trace (cooldown n w)) = requests (trace w)"
  by (simp_all add: cooldown_def emit_fields checkpoints_append requests_append)

lemma appendUsersToFile_fields:
  "cursor_file (snd (appendUsersToFile us f w)) = cursor_file w"
  "timestamp_file (snd (appendUsersToFile us f w)) = timestamp_file w"
  "checkpoints (trace (snd (appendUsersToFile us f w))) = checkpoints (trace w)"
  "requests (trace (snd (appendUsersToFile us f w))) = requests (trace w)"
  "sleeps (trace (snd (appendUsersToFile us f w))) = sleeps (trace w)"
  by (simp_all add: appendUsersToFile_def Let_def append_file_def emit_fields checkpoints_append
      requests_append sleeps_append split: prod.splits)

lemma saveCursor_fields:
  "users_file (saveCursor c w) = users_file w" "cursor_file (saveCursor c w) = Some (or_empty c)"
  "timestamp_file (saveCursor c w) = timestamp_file w"
  "processedUserIds (saveCursor c w) = processedUserIds w"
  "checkpoints (trace (saveCursor c w)) = checkpoints (trace w) @ [or_empty c]"
  "requests (trace (saveCursor c w)) = requests (trace w)"
  "sleeps (trace (saveCursor c w)) = sleeps (trace w)"
  by (simp_all add: saveCursor_def emit_fields checkpoints_append requests_append sleeps_append)

lemma paging_loop_step:
  "paging_loop rnd since (evs # script) cursor isFirstBatch totalUsers processedUsers w =
     (let w1 = snd (fetchPageOfUsers rnd (truthy_cursor cursor) since evs (cooldown totalUsers w)) in
      case fetched evs of
        Pending \<Rightarrow> Stuck w1
      | Threw e \<Rightarrow> Failed e w1
      | Returned q \<Rightarrow>
          if data q = None then Failed InvalidResponseFormat w1
          else if continues q then
            paging_loop rnd since script (next_cursor q)
              (if length (the (data q)) > 0 then False else isFirstBatch)
              (totalUsers + page_new q isFirstBatch w1)
              (if length (the (data q)) > 0 then processedUsers + length (the (data q)) else processedUsers)
              (page_done q isFirstBatch w1)
          else Done (page_done q isFirstBatch w1))"
proof -
  obtain o1 w1 where f: "fetchPageOfUsers rnd (truthy_cursor cursor) since evs (cooldown totalUsers w) = (o1, w1)"
    by (cases "fetchPageOfUsers rnd (truthy_cursor cursor) since evs (cooldown totalUsers w)")
  have o1: "fetched evs = o1"
    using fetchPageOfUsers_fetched [of rnd "truthy_cursor cursor" since evs "cooldown totalUsers w"] f by simp
  show ?thesis
  proof (cases o1)
    case (Returned q)
    show ?thesis
    proof (cases "data q")
      case None
      with Returned f o1 show ?thesis by simp
    next
      case (Some users)
      with Returned f o1 show ?thesis
        by (cases "next_cursor q")
          (auto simp: Let_def continues_def truthy_cursor_None page_done_def page_new_def)
    qed
  next
    case (Threw e)
    with f o1 show ?thesis by simp
  next
    case Pending
    with f o1 show ?thesis by simp
  qed
qed


lemma page_done_fields:
  "cursor_file (page_done q f w) = Some (or_empty (next_cursor q))"
  "timestamp_file (page_done q f w) = timestamp_file w"
  "checkpoints (trace (page_done q f w)) = checkpoints (trace w) @ [or_empty (next_cursor q)]"
  "requests (trace (page_done q f w)) = requests (trace w)"
  by (simp_all add: page_done_def saveCursor_fields appendUsersToFile_fields)

lemma paging_loop_empty:
  "paging_loop rnd since [] cursor f t p w =
     Stuck (snd (fetchPageOfUsers rnd (truthy_cursor cursor) since [] (cooldown t w)))"
  by simp

declare paging_loop.simps [simp del]



lemma loop_result:
  "is_Done (paging_loop rnd since script cursor f t p w) \<longleftrightarrow>
     processed_pages script \<noteq> [] \<and> \<not> continues (last (processed_pages script))"
proof (induction script arbitrary: cursor f t p w)
  case Nil
  then show ?case by (simp add: paging_loop_empty)
next
  case (Cons evs script)
  show ?case
    unfolding paging_loop_step
    by (simp add: Let_def Cons.IH split: outcome.splits)
qed


subsection \<open>Decimal numbers\<close>

lemma digit_val_char: "d < 10 \<Longrightarrow> digit_val (digit_char d) = Some d"
proof -
  assume "d < 10"
  then have "d \<in> {0,1,2,3,4,5,6,7,8,9}" by auto
  then show ?thesis
    by (auto simp: digit_val_def digit_char_def digit_table_def)
qed

lemma nat_of_digits_snoc:
  "nat_of_digits (ds @ [c]) = 10 * nat_of_digits ds + (case digit_val c of None \<Rightarrow> 0 | Some d \<Rightarrow> d)"
  by (simp add: nat_of_digits_def)

lemma string_of_nat_digits:
  "list_all is_digit (string_of_nat n) \<and> string_of_nat n \<noteq> [] \<and> nat_of_digits (string_of_nat n) = n"
proof (induction n rule: string_of_nat.induct)
  case (1 n)
  show ?case
  proof (cases "n < 10")
    case True
    then show ?thesis
      by (subst (1 2 3) string_of_nat.simps) (simp add: is_digit_def digit_val_char nat_of_digits_def)
  next
    case False
    then have IH: "list_all is_digit (string_of_nat (n div 10)) \<and> string_of_nat (n div 10) \<noteq> [] \<and>
        nat_of_digits (string_of_nat (n div 10)) = n div 10"
      using 1 by simp
    have m: "digit_val (digit_char (n mod 10)) = Some (n mod 10)"
      by (rule digit_val_char) simp
    show ?thesis
      using False IH m
      by (subst (1 2 3) string_of_nat.simps) (simp add: is_digit_def nat_of_digits_snoc)
  qed
qed

lemma string_of_nat_inj: "string_of_nat a = string_of_nat b \<Longrightarrow> a = b"
proof -
  assume eq: "string_of_nat a = string_of_nat b"
  have "a = nat_of_digits (string_of_nat a)" using string_of_nat_digits [of a] by simp
  also have "\<dots> = nat_of_digits (string_of_nat b)" by (simp only: eq)
  also have "\<dots> = b" using string_of_nat_digits [of b] by simp
  finally show ?thesis .
qed







subsection \<open>Whole runs\<close>


lemma world_of_getAllUsers:
  "world_of (getAllUsers rnd since script w) =
     (let r = paging_loop rnd since script (loadSavedCursor w) (truthy_cursor (loadSavedCursor w) = None) 0 0 w
      in if is_Done r then unlink_cursor (world_of r) else world_of r)"
  "is_Done (getAllUsers rnd since script w) =
     is_Done (paging_loop rnd since script (loadSavedCursor w) (truthy_cursor (loadSavedCursor w) = None) 0 0 w)"
  by (simp_all add: getAllUsers_def Let_def split: run_result.splits)

lemma unlink_fields:
  "cursor_file (unlink_cursor w) = None" "timestamp_file (unlink_cursor w) = timestamp_file w"
  "users_file (unlink_cursor w) = users_file w"
  "requests (trace (unlink_cursor w)) = requests (trace w)"
  "checkpoints (trace (unlink_cursor w)) = checkpoints (trace w)"
  by (simp_all add: unlink_cursor_def emit_fields requests_append checkpoints_append)

lemma saveTimestamp_fields:
  "cursor_file (saveTimestamp T w) = cursor_file w" "timestamp_file (saveTimestamp T w) = Some (toString T)"
  "users_file (saveTimestamp T w) = users_file w"
  "requests (trace (saveTimestamp T w)) = requests (trace w)"
  "checkpoints (trace (saveTimestamp T w)) = checkpoints (trace w)"
  by (simp_all add: saveTimestamp_def emit_fields requests_append checkpoints_append)

lemma loadExisting_fields:
  "cursor_file (loadExistingUserIds w) = cursor_file w"
  "timestamp_file (loadExistingUserIds w) = timestamp_file w"
  "users_file (loadExistingUserIds w) = users_file w"
  "trace (loadExistingUserIds w) = trace w"
  "loadSavedCursor (loadExistingUserIds w) = loadSavedCursor w"
  "loadLastFetchTimestamp (loadExistingUserIds w) = loadLastFetchTimestamp w"
  by (simp_all add: loadExistingUserIds_def loadSavedCursor_def loadLastFetchTimestamp_def
      split: option.splits)


lemma world_of_main:
  "world_of (main inc T rnd script w) =
     (let r = getAllUsers rnd (if inc then loadLastFetchTimestamp w else None) script (loadExistingUserIds w)
      in if is_Done r then saveTimestamp T (world_of r) else world_of r)"
  "is_Done (main inc T rnd script w) =
     is_Done (getAllUsers rnd (if inc then loadLastFetchTimestamp w else None) script (loadExistingUserIds w))"
  by (auto simp: main_def Let_def loadExisting_fields split: run_result.splits)


lemma start_fields:
  "users_file (start_process u c t) = u" "cursor_file (start_process u c t) = c"
  "timestamp_file (start_process u c t) = t" "trace (start_process u c t) = []"
  "processedUserIds (start_process u c t) = {}"
  by (simp_all add: start_process_def)

text \<open>Unfolding these evaluates a run on a concrete input.\<close>

lemmas run_defs =
  main_def getAllUsers_def paging_loop.simps fetchPageOfUsers_def Let_def cooldown_def
  appendUsersToFile_def append_file_def saveCursor_def saveTimestamp_def unlink_cursor_def
  loadExistingUserIds_def loadSavedCursor_def loadLastFetchTimestamp_def start_process_def
  restart_def emit_def truthy_cursor_def truthy_since_def or_empty_def or_null_def
  usersBatchSize_def

lemmas text_defs =
  formatUserToCsvRow_def quoted_def account_address_def csv_header_def toString_def
  string_of_nat.simps digit_char_def digit_table_def digit_val_def is_digit_def nat_of_digits_def
  parseInt_def trim_def is_ws_def index_line_def remove_quotes_def newline_def comma_def dquote_def

subsection \<open>When the pass ends\<close>

lemma fetched_ok: "fetched [Response 200 q] = Returned q"
  by (simp add: fetched_def Let_def)

lemma fetch_once_requests:
  "requests (trace (snd (fetchPageOfUsers rnd c s [Response 200 q] w))) =
     requests (trace w) @ [(truthy_cursor c, truthy_since s)]"
  "requests (trace (snd (fetchPageOfUsers rnd c s [] w))) =
     requests (trace w) @ [(truthy_cursor c, truthy_since s)]"
  by (simp_all add: fetchPageOfUsers_def Let_def emit_fields requests_append)

lemma served_loop:
  assumes "list_all (\<lambda>q. data q \<noteq> None) pages"
  shows "requests (trace (world_of (paging_loop rnd since (served pages) cursor f t p w))) =
      requests (trace w) @ map (\<lambda>c. (c, truthy_since since))
        (truthy_cursor cursor # map (\<lambda>q. truthy_cursor (next_cursor q)) (takeWhile continues pages)) \<and>
    is_Done (paging_loop rnd since (served pages) cursor f t p w) = (\<not> list_all continues pages) \<and>
    is_Stuck (paging_loop rnd since (served pages) cursor f t p w) = list_all continues pages"
  using assms
proof (induction pages arbitrary: cursor f t p w)
  case Nil
  then show ?case
    by (simp add: served_def paging_loop_empty fetch_once_requests cooldown_fields truthy_cursor_idem)
next
  case (Cons q pages)
  then have IH: "\<And>cursor f t p w.
      requests (trace (world_of (paging_loop rnd since (served pages) cursor f t p w))) =
        requests (trace w) @ map (\<lambda>c. (c, truthy_since since))
          (truthy_cursor cursor # map (\<lambda>q. truthy_cursor (next_cursor q)) (takeWhile continues pages)) \<and>
      is_Done (paging_loop rnd since (served pages) cursor f t p w) = (\<not> list_all continues pages) \<and>
      is_Stuck (paging_loop rnd since (served pages) cursor f t p w) = list_all continues pages"
    by simp
  from Cons.prems have d: "data q \<noteq> None" by simp
  have s: "served (q # pages) = [Response 200 q] # served pages"
    by (simp add: served_def)
  show ?case
    unfolding s paging_loop_step
    using d
    by (simp add: Let_def fetched_ok IH page_done_fields fetch_once_requests cooldown_fields
        truthy_cursor_idem)
qed

lemma final_page_ends:
  "is_Done (paging_loop rnd since ([Response 200 \<lparr>data = Some [], next_cursor = None\<rparr>] # script) cursor f t p w)"
  unfolding paging_loop_step by (simp add: Let_def fetched_ok continues_def)

text \<open>
  C6, as amended. From every state of the loop, when each call returns a well-formed page at
  its first attempt: the requests sent are one for the cursor the loop starts with and one for
  the cursor of each page up to the first page after which the loop does not continue; the
  pass is complete exactly when there is such a page, and otherwise the loop is still waiting
  for a page. The loop continues after a page exactly when the cursor of the page is not null,
  except that an empty page whose cursor is the empty string ends the pass too. A page with no
  records and a null cursor ends the pass wherever it comes, whatever follows it. For any
  script, with retries and failures, the pass is complete exactly when the last page that was
  processed is one after which the loop does not continue.
\<close>

theorem pass_ends_at_first_stopping_page:
  assumes "list_all (\<lambda>q. data q \<noteq> None) pages"
  shows "requests (trace (world_of (paging_loop rnd since (served pages) cursor isFirstBatch totalUsers processedUsers w))) =
      requests (trace w) @ map (\<lambda>c. (c, truthy_since since))
        (truthy_cursor cursor # map (\<lambda>q. truthy_cursor (next_cursor q)) (takeWhile continues pages)) \<and>
    is_Done (paging_loop rnd since (served pages) cursor isFirstBatch totalUsers processedUsers w) =
      (\<not> list_all continues pages) \<and>
    is_Stuck (paging_loop rnd since (served pages) cursor isFirstBatch totalUsers processedUsers w) =
      list_all continues pages \<and>
    is_Done (paging_loop rnd since ([Response 200 \<lparr>data = Some [], next_cursor = None\<rparr>] # script)
      cursor isFirstBatch totalUsers processedUsers w) \<and>
    is_Done (paging_loop rnd since script cursor isFirstBatch totalUsers processedUsers w) =
      (processed_pages script \<noteq> [] \<and> \<not> continues (last (processed_pages script)))"
  using served_loop [OF assms, of rnd since cursor isFirstBatch totalUsers processedUsers w]
    final_page_ends [of rnd since script cursor isFirstBatch totalUsers processedUsers w]
    loop_result [of rnd since script cursor isFirstBatch totalUsers processedUsers w]
  by (elim conjE, intro conjI) assumption+

theorem pass_ends_at_first_stopping_page_witness:
  "requests (trace (world_of (paging_loop mid_random None (served [first_page, last_page, first_page])
      None True 0 0 (start_process None None None)))) = [(None, None), (Some ''c1'', None)] \<and>
   is_Done (paging_loop mid_random None (served [first_page, last_page, first_page])
      None True 0 0 (start_process None None None))"
  using pass_ends_at_first_stopping_page [where pages = "[first_page, last_page, first_page]"
      and rnd = mid_random and since = None and cursor = None and isFirstBatch = True
      and totalUsers = 0 and processedUsers = 0 and w = "start_process None None None"
      and script = "[]"]
  by (simp add: first_page_def last_page_def continues_def start_process_def truthy_cursor_def
      truthy_since_def or_null_def)

text \<open>
  The loop does not go on exactly while the cursor is not null: a first page with no records
  and the empty string as its cursor ends the pass after one request.
\<close>

theorem blank_cursor_ends_pass:
  "next_cursor blank_cursor_page \<noteq> None \<and>
   is_Done (paging_loop mid_random None (served [blank_cursor_page, last_page]) None True 0 0
      (start_process None None None)) \<and>
   requests (trace (world_of (paging_loop mid_random None (served [blank_cursor_page, last_page])
      None True 0 0 (start_process None None None)))) = [(None, None)]"
  by (simp add: run_defs served_def blank_cursor_page_def last_page_def)

subsection \<open>The since filter\<close>




subsection \<open>The watermark\<close>




subsection \<open>The batch cooldown\<close>

lemma fold_add_user_new:
  "distinct (map user_id us) \<Longrightarrow> set (map user_id us) \<inter> ids = {} \<Longrightarrow>
   fold add_user us (csv, ids, n, d) =
     (csv @ map formatUserToCsvRow us, ids \<union> set (map user_id us), n + length us, d)"
proof (induction us arbitrary: csv ids n)
  case Nil
  then show ?case by simp
next
  case (Cons u us)
  from Cons.prems have new: "user_id u \<notin> ids" by auto
  from Cons.prems have d: "distinct (map user_id us)"
    and i: "set (map user_id us) \<inter> insert (user_id u) ids = {}" by auto
  show ?case
    using new by (simp add: Cons.IH [OF d i])
qed

lemma append_all_new:
  assumes "distinct (map user_id us)" "set (map user_id us) \<inter> processedUserIds w = {}"
  shows "fst (appendUsersToFile us f w) = length us"
    and "processedUserIds (snd (appendUsersToFile us f w)) = processedUserIds w \<union> set (map user_id us)"
  by (simp_all add: appendUsersToFile_def Let_def fold_add_user_new [OF assms] append_file_def emit_def)

lemma numbered_ids: "map user_id (numbered_users n) = map string_of_nat [0..<n]"
  by (simp add: numbered_users_def numbered_user_def)

lemma numbered_distinct: "distinct (map user_id (numbered_users n))"
  unfolding numbered_ids by (simp add: distinct_map inj_on_def string_of_nat_inj)

lemma numbered_length: "length (numbered_users n) = n"
  by (simp add: numbered_users_def)

lemma numbered_card: "card (user_id ` set (numbered_users n)) = n"
  using distinct_card [OF numbered_distinct [of n]] by (simp add: numbered_length)

lemma append_numbered:
  "processedUserIds w = {} \<Longrightarrow> fst (appendUsersToFile (numbered_users n) f w) = n"
  "processedUserIds w = {} \<Longrightarrow>
     processedUserIds (snd (appendUsersToFile (numbered_users n) f w)) = set (map user_id (numbered_users n))"
  using append_all_new [OF numbered_distinct, of n w f] by (simp_all add: numbered_length)

lemmas loop_defs =
  main_def getAllUsers_def paging_loop.simps fetchPageOfUsers_def Let_def cooldown_def
  saveCursor_def saveTimestamp_def unlink_cursor_def
  loadExistingUserIds_def loadSavedCursor_def loadLastFetchTimestamp_def start_process_def
  emit_def truthy_cursor_def truthy_since_def or_empty_def or_null_def usersBatchSize_def

text \<open>
  C7 does not hold on the code. The first page brings 2501 new users and a cursor, the second
  page is empty and ends the pass: the run is complete, 2501 identifiers were exported, two
  requests were sent, and the only delays are the two pacing delays of 2000 ms. The count of
  new records went past 2500 and no cooldown of 10000 ms came before the second request,
  since 2501 is not a multiple of 2500.
\<close>

theorem cooldown_skipped_past_batch_size:
  "is_Done (main False 1000 mid_random (served [big_page, empty_last_page]) (start_process None None None)) \<and>
   card (processedUserIds (world_of (main False 1000 mid_random (served [big_page, empty_last_page]) (start_process None None None)))) = 2501 \<and>
   requests (trace (world_of (main False 1000 mid_random (served [big_page, empty_last_page]) (start_process None None None)))) =
     [(None, None), (Some ''c1'', None)] \<and>
   sleeps (trace (world_of (main False 1000 mid_random (served [big_page, empty_last_page]) (start_process None None None)))) =
     [2000, 2000]"
  by (simp add: loop_defs served_def big_page_def empty_last_page_def numbered_length append_numbered
      numbered_card appendUsersToFile_fields requests_append sleeps_append
      rateLimitMs_def maxRequestsPerMinute_def)

subsection \<open>No identifier twice in the output file\<close>

lemma fresh_users_props:
  "distinct (map user_id (fresh_users ids us)) \<and> user_id ` set (fresh_users ids us) \<inter> ids = {} \<and>
   set (fresh_users ids us) \<subseteq> set us"
proof (induction us arbitrary: ids)
  case Nil
  then show ?case by simp
next
  case (Cons u us)
  show ?case
    using Cons.IH [of ids] Cons.IH [of "insert (user_id u) ids"] by auto
qed

lemma fresh_users_length: "length (fresh_users ids us) \<le> length us"
  by (induction us arbitrary: ids) (auto simp: le_SucI)

lemma fold_add_user:
  "fold add_user us (csv, ids, n, d) =
     (csv @ map formatUserToCsvRow (fresh_users ids us), ids \<union> user_id ` set us,
      n + length (fresh_users ids us), d + (length us - length (fresh_users ids us)))"
proof (induction us arbitrary: csv ids n d)
  case Nil
  then show ?case by simp
next
  case (Cons u us)
  show ?case
    using fresh_users_length [of ids us] fresh_users_length [of "insert (user_id u) ids" us]
    by (auto simp: Cons.IH)
qed

lemma join_lines:
  "rows \<noteq> [] \<Longrightarrow> join [newline] rows @ [newline] = concat (map (\<lambda>l. l @ [newline]) rows)"
proof (induction rows)
  case Nil
  then show ?case by simp
next
  case (Cons r rows)
  then show ?case by (cases rows) simp_all
qed

lemma sink_of_append:
  "sink_of (us @ vs) = sink_of us @ concat (map (\<lambda>l. l @ [newline]) (map formatUserToCsvRow vs))"
  by (simp add: sink_of_def export_file_def)

lemma sink_of_not_empty: "sink_of us \<noteq> []"
  by (simp add: sink_of_def export_file_def csv_header_def)

lemma sink_of_header:
  "join [newline] (csv_header # map formatUserToCsvRow vs) @ [newline] = sink_of vs"
  using join_lines [of "csv_header # map formatUserToCsvRow vs"]
  by (simp add: sink_of_def export_file_def)

lemma append_sink_ok:
  assumes "sink_ok first w" "us \<noteq> []" "list_all clean_user us"
  shows "sink_ok False (snd (appendUsersToFile us first w))"
proof -
  let ?new = "fresh_users (processedUserIds w) us"
  note fp = fresh_users_props [of "processedUserIds w" us]
  have cl: "list_all clean_user ?new"
    using assms(3) fp by (auto simp: list_all_iff)
  from assms(1) consider
    (empty) "or_empty (users_file w) = []" "first"
    | (sink) us0 where "users_file w = Some (sink_of us0)" "distinct (map user_id us0)"
        "list_all clean_user us0" "user_id ` set us0 \<subseteq> processedUserIds w"
    unfolding sink_ok_def by blast
  then show ?thesis
  proof cases
    case empty
    have "users_file (snd (appendUsersToFile us first w)) = Some (sink_of ?new) \<and>
      processedUserIds (snd (appendUsersToFile us first w)) = processedUserIds w \<union> user_id ` set us"
      using empty
      by (simp add: appendUsersToFile_def Let_def fold_add_user append_file_def emit_def
          sink_of_header del: join.simps)
    moreover have "user_id ` set ?new \<subseteq> processedUserIds w \<union> user_id ` set us"
      using fp by auto
    ultimately show ?thesis
      unfolding sink_ok_def using fp cl by auto
  next
    case sink
    have ne: "or_empty (users_file w) \<noteq> []"
      using sink(1) by (simp add: or_empty_def sink_of_not_empty)
    have f: "users_file (snd (appendUsersToFile us first w)) = Some (sink_of (us0 @ ?new)) \<and>
      processedUserIds (snd (appendUsersToFile us first w)) = processedUserIds w \<union> user_id ` set us"
    proof (cases "?new = []")
      case True
      then show ?thesis
        using ne sink(1) by (simp add: appendUsersToFile_def Let_def fold_add_user)
    next
      case False
      then have "join [newline] (map formatUserToCsvRow ?new) @ [newline] =
          concat (map (\<lambda>l. l @ [newline]) (map formatUserToCsvRow ?new))"
        by (intro join_lines) simp
      then show ?thesis
        using ne sink(1) False
        by (simp add: appendUsersToFile_def Let_def fold_add_user append_file_def emit_def
            sink_of_append or_empty_def del: join.simps)
    qed
    have d: "distinct (map user_id (us0 @ ?new))"
      using sink(2,4) fp by auto
    have c: "list_all clean_user (us0 @ ?new)"
      using sink(3) cl by simp
    have s: "user_id ` set (us0 @ ?new) \<subseteq> processedUserIds w \<union> user_id ` set us"
      using sink(4) fp by auto
    show ?thesis
      unfolding sink_ok_def using f d c s by blast
  qed
qed

lemma sink_ok_cong:
  "users_file w' = users_file w \<Longrightarrow> processedUserIds w' = processedUserIds w \<Longrightarrow>
   sink_ok f w' = sink_ok f w"
  by (simp add: sink_ok_def)

lemma sink_ok_exported: "sink_ok f w \<Longrightarrow> exported w"
  unfolding sink_ok_def exported_def by blast

lemma exported_cong: "users_file w' = users_file w \<Longrightarrow> exported w' = exported w"
  by (simp add: exported_def)

lemma page_done_sink_ok:
  assumes "sink_ok first w" "data q = Some us" "list_all clean_user us"
  shows "sink_ok (if length (the (data q)) > 0 then False else first) (page_done q first w)"
proof (cases "us = []")
  case True
  have "sink_ok first (saveCursor (next_cursor q) w) = sink_ok first w"
    by (rule sink_ok_cong) (simp_all add: saveCursor_fields)
  with True assms show ?thesis by (simp add: page_done_def)
next
  case False
  have "sink_ok False (saveCursor (next_cursor q) (snd (appendUsersToFile us first w))) =
      sink_ok False (snd (appendUsersToFile us first w))"
    by (rule sink_ok_cong) (simp_all add: saveCursor_fields)
  with False assms append_sink_ok [OF assms(1) False assms(3)] show ?thesis
    by (simp add: page_done_def)
qed

lemma loop_sink_ok:
  "sink_ok first w \<Longrightarrow> clean_script script \<Longrightarrow>
   exported (world_of (paging_loop rnd since script cursor first t p w))"
proof (induction script arbitrary: cursor first t p w)
  case Nil
  have "exported (snd (fetchPageOfUsers rnd (truthy_cursor cursor) since [] (cooldown t w))) = exported w"
    by (rule exported_cong) (simp add: fetchPageOfUsers_fields cooldown_fields)
  with Nil.prems(1) show ?case
    by (simp add: paging_loop_empty sink_ok_exported)
next
  case (Cons evs script)
  let ?w1 = "snd (fetchPageOfUsers rnd (truthy_cursor cursor) since evs (cooldown t w))"
  have "sink_ok first ?w1 = sink_ok first w"
    by (rule sink_ok_cong) (simp_all add: fetchPageOfUsers_fields cooldown_fields)
  with Cons.prems(1) have w1: "sink_ok first ?w1" by simp
  from Cons.prems(2) have rest: "clean_script script" by (simp add: clean_script_def)
  show ?case
  proof (cases "fetched evs")
    case (Returned q)
    show ?thesis
    proof (cases "data q")
      case None
      with Returned w1 show ?thesis
        unfolding paging_loop_step by (simp add: Let_def sink_ok_exported)
    next
      case (Some us)
      with Returned Cons.prems(2) have cl: "list_all clean_user us"
        by (simp add: clean_script_def)
      note pd = page_done_sink_ok [OF w1 Some cl]
      show ?thesis
        unfolding paging_loop_step
        using Returned Some pd Cons.IH [OF pd rest] sink_ok_exported [OF pd]
        by (simp add: Let_def)
    qed
  next
    case (Threw e)
    with w1 show ?thesis
      unfolding paging_loop_step by (simp add: Let_def sink_ok_exported)
  next
    case Pending
    with w1 show ?thesis
      unfolding paging_loop_step by (simp add: Let_def sink_ok_exported)
  qed
qed

lemma startup_sink_ok:
  assumes "or_empty users = [] \<and> loadSavedCursor (start_process users cursor timestamp) = None \<or>
     (\<exists>us. users = Some (sink_of us) \<and> distinct (map user_id us) \<and> list_all clean_user us)"
  shows "sink_ok (truthy_cursor (loadSavedCursor (loadExistingUserIds (start_process users cursor timestamp))) = None)
     (loadExistingUserIds (start_process users cursor timestamp))"
proof -
  let ?w0 = "start_process users cursor timestamp"
  from assms consider
    (empty) "or_empty users = []" "loadSavedCursor ?w0 = None"
    | (sink) us where "users = Some (sink_of us)" "distinct (map user_id us)" "list_all clean_user us"
    by (elim disjE exE conjE) blast+
  then show ?thesis
  proof cases
    case empty
    then show ?thesis
      by (simp add: sink_ok_def loadExisting_fields start_fields truthy_cursor_def)
  next
    case sink
    have "user_id u \<in> processedUserIds (loadExistingUserIds ?w0)" if "u \<in> set us" for u
    proof -
      from that sink(3) have "clean_id (user_id u)"
        by (simp add: list_all_iff clean_user_def)
      moreover from that have "formatUserToCsvRow u \<in> set (map formatUserToCsvRow us)" by simp
      ultimately show ?thesis
        unfolding sink(1) sink_of_def by (rule exported_id_indexed)
    qed
    then have "user_id ` set us \<subseteq> processedUserIds (loadExistingUserIds ?w0)" by auto
    with sink show ?thesis
      unfolding sink_ok_def by (auto simp: loadExisting_fields start_fields)
  qed
qed

text \<open>
  C1, as amended. A run starts either on a missing or empty output file with no saved cursor,
  or on an output file that is the header followed by the rows of users with pairwise distinct
  identifiers; all identifiers, in the file and in the pages served, have no comma, no double
  quote and no line feed. Then after the run, however it ends and however the pages overlap,
  the output file is missing or empty, or is again the header followed by the rows of users
  with pairwise distinct identifiers of that kind.
\<close>

theorem no_duplicate_rows:
  assumes "or_empty users = [] \<and> loadSavedCursor (start_process users cursor timestamp) = None \<or>
     (\<exists>us. users = Some (sink_of us) \<and> distinct (map user_id us) \<and> list_all clean_user us)"
    and "clean_script script"
  shows "exported (world_of (main fetchNewOnly T rnd script (start_process users cursor timestamp)))"
proof -
  let ?w0 = "start_process users cursor timestamp"
  let ?since = "if fetchNewOnly then loadLastFetchTimestamp ?w0 else None"
  let ?l = "paging_loop rnd ?since script (loadSavedCursor (loadExistingUserIds ?w0))
     (truthy_cursor (loadSavedCursor (loadExistingUserIds ?w0)) = None) 0 0 (loadExistingUserIds ?w0)"
  have l: "exported (world_of ?l)"
    using startup_sink_ok [OF assms(1)] assms(2) by (rule loop_sink_ok)
  have "users_file (world_of (main fetchNewOnly T rnd script ?w0)) = users_file (world_of ?l)"
    by (simp add: world_of_main world_of_getAllUsers Let_def saveTimestamp_fields unlink_fields)
  then have "exported (world_of (main fetchNewOnly T rnd script ?w0)) = exported (world_of ?l)"
    by (rule exported_cong)
  with l show ?thesis by simp
qed

theorem no_duplicate_rows_witness:
  "exported (world_of (main False 2000 mid_random [[Response 200 last_page]]
      (start_process (Some (sink_of [alice])) None None))) \<and>
   users_file (world_of (main False 2000 mid_random [[Response 200 last_page]]
      (start_process (Some (sink_of [alice])) None None))) = Some (sink_of [alice])"
proof -
  have "\<exists>us. Some (sink_of [alice]) = Some (sink_of us) \<and> distinct (map user_id us) \<and>
      list_all clean_user us"
    by (rule exI [of _ "[alice]"])
      (simp add: clean_user_def clean_id_def alice_def comma_def dquote_def newline_def)
  moreover have "clean_script [[Response 200 last_page]]"
    by (simp add: clean_script_def fetched_def Let_def last_page_def clean_user_def clean_id_def
        alice_def comma_def dquote_def newline_def)
  ultimately have "exported (world_of (main False 2000 mid_random [[Response 200 last_page]]
      (start_process (Some (sink_of [alice])) None None)))"
    using no_duplicate_rows [of "Some (sink_of [alice])" None None "[[Response 200 last_page]]"
        False 2000 mid_random]
    by blast
  moreover have "users_file (world_of (main False 2000 mid_random [[Response 200 last_page]]
      (start_process (Some (sink_of [alice])) None None))) = Some (sink_of [alice])"
    by (simp add: run_defs text_defs last_page_def alice_def sink_of_def export_file_def)
  ultimately show ?thesis by simp
qed

text \<open>
  With a comma in the identifier the claim fails: the index read back from the file holds
  \<^verbatim>\<open>a\<close> for the user \<^verbatim>\<open>a,b\<close>, and a second run writes the row of that user again.
\<close>

theorem comma_id_exported_twice:
  "users_file (world_of (main False 2000 mid_random [[Response 200 carol_page]]
     (restart (world_of (main False 1000 mid_random [[Response 200 carol_page]]
        (start_process None None None)))))) =
   Some (sink_of [carol, carol])"
  by (simp add: run_defs carol_page_def carol_def text_defs sink_of_def export_file_def)

text \<open>
  The amended claim leaves out the run that resumes from a saved cursor on a missing output
  file. That run writes its rows without a header line, and the next run skips the first row
  as if it were the header: the user of that row is written a second time.
\<close>

lemma failed_start_files: "users_file after_failed_start = None \<and> cursor_file after_failed_start = Some ''c1'' \<and> timestamp_file after_failed_start = None"
  by (simp add: after_failed_start_def run_defs cursor_only_page_def server_error_def)

lemma resumed_run_files: "users_file after_resumed_run = Some (formatUserToCsvRow alice @ [newline]) \<and>
   cursor_file after_resumed_run = None \<and> timestamp_file after_resumed_run = Some ''2000''"
  using failed_start_files by (simp add: after_resumed_run_def run_defs last_page_def alice_def text_defs)

theorem resumed_row_exported_twice:
  "users_file after_failed_start = None \<and> cursor_file after_failed_start = Some ''c1'' \<and>
   users_file after_resumed_run = Some (formatUserToCsvRow alice @ [newline]) \<and>
   users_file after_second_run =
     Some (formatUserToCsvRow alice @ [newline] @ formatUserToCsvRow alice @ [newline])"
  using failed_start_files resumed_run_files
  by (simp add: after_second_run_def run_defs last_page_def alice_def text_defs)

subsection \<open>The cursor checkpoint\<close>















end
